theory Spec2Isabelle
  imports Complex_Main "HOL-Library.Signed_Division" "HOL-Library.Multiset"
begin

section \<open>Numbers: \<open>long\<close>, \<open>long double\<close> and the square-root limit\<close>

text \<open>
  The program computes with \<open>long\<close> (64-bit, two's complement). Values are modelled as
  \<open>int\<close>; every theorem that depends on the width carries the range as a hypothesis.
  \<open>/\<close> and \<open>%\<close> of C++ truncate towards zero: they are \<open>sdiv\<close> and \<open>smod\<close>.
\<close>

definition LONG_MAX :: int where
  "LONG_MAX = 2 ^ 63 - 1"

definition LONG_MIN :: int where
  "LONG_MIN = - (2 ^ 63)"

definition is_long :: "int \<Rightarrow> bool" where
  "is_long n \<longleftrightarrow> LONG_MIN \<le> n \<and> n \<le> LONG_MAX"

text \<open>The mathematical \<open>floor (sqrt n)\<close>, computed on integers two bits at a time.\<close>

function floor_sqrt :: "int \<Rightarrow> int" where
  "floor_sqrt n =
     (if n < 1 then 0
      else let r = 2 * floor_sqrt (n div 4)
           in if (r + 1) * (r + 1) \<le> n then r + 1 else r)"
  by pat_completeness auto
termination
  by (relation "measure nat") auto

declare floor_sqrt.simps [simp del]

text \<open>The position of the leading bit of a positive integer: \<open>floor (log2 n)\<close>.\<close>

function ilog2 :: "int \<Rightarrow> nat" where
  "ilog2 n = (if n < 2 then 0 else Suc (ilog2 (n div 2)))"
  by pat_completeness auto
termination
  by (relation "measure nat") auto

declare ilog2.simps [simp del]

text \<open>
  \<open>long double\<close> is the x87 extended format: a 64-bit significand. The only values the
  program forms are square roots of \<open>long\<close>s from 3 on, which lie in \<open>[1, 2^32)\<close>; such
  a value is \<open>significand / 2 ^ scale\<close> with \<open>2^63 \<le> significand \<le> 2^64\<close>.
\<close>

record long_double =
  significand :: int
  scale :: nat

text \<open>
  \<open>std::sqrt(static_cast<long double>(n))\<close>. The conversion is exact (a \<open>long\<close> fits
  the 64-bit significand). The square root is correctly rounded, to nearest, ties to even:
  with \<open>e\<close> the exponent of \<open>sqrt n\<close> the result is a multiple of \<open>2^(e - 63)\<close>; \<open>m\<close> is
  the exact root scaled and rounded down, and it is rounded up when the rest exceeds one
  half (a tie cannot occur: \<open>m * m + m + 1/4\<close> is not an integer).
\<close>

definition sqrtl :: "int \<Rightarrow> long_double" where
  "sqrtl n =
     (if n \<le> 0 then \<lparr>significand = 0, scale = 0\<rparr>
      else let e = ilog2 (floor_sqrt n);
               s = 63 - e;
               m = floor_sqrt (n * 4 ^ s);
               q = (if m * m + m < n * 4 ^ s then m + 1 else m)
           in \<lparr>significand = q, scale = s\<rparr>)"

text \<open>\<open>static_cast<long>(x)\<close>: truncation towards zero.\<close>

definition to_long :: "long_double \<Rightarrow> int" where
  "to_long x = significand x sdiv 2 ^ scale x"

text \<open>\<open>long limit = static_cast<long>(std::sqrt(static_cast<long double>(n)));\<close>\<close>

definition sqrt_limit :: "int \<Rightarrow> int" where
  "sqrt_limit n = to_long (sqrtl n)"

section \<open>The standalone oracle\<close>

text \<open>The loop \<open>for (long d = 3; d <= limit; d += 2) if (n % d == 0) return false;\<close>
  followed by \<open>return true\<close>, entered at \<open>d\<close>.\<close>

function trial_loop :: "int \<Rightarrow> int \<Rightarrow> int \<Rightarrow> bool" where
  "trial_loop n limit d =
     (if d \<le> limit then (if n smod d = 0 then False else trial_loop n limit (d + 2))
      else True)"
  by pat_completeness auto
termination
  by (relation "measure (\<lambda>(n, limit, d). nat (limit + 1 - d))") auto

declare trial_loop.simps [simp del]

definition isPrimeSingleThread :: "int \<Rightarrow> bool" where
  "isPrimeSingleThread n =
     (if n < 2 then False
      else if n = 2 then True
      else if n smod 2 = 0 then False
      else trial_loop n (sqrt_limit n) 3)"

text \<open>What "prime" means, and the independent trial-division reference of the spec.\<close>

definition is_prime :: "int \<Rightarrow> bool" where
  "is_prime n \<longleftrightarrow> 2 \<le> n \<and> (\<forall>d. 1 < d \<and> d < n \<longrightarrow> \<not> d dvd n)"

definition reference_is_prime :: "int \<Rightarrow> bool" where
  "reference_is_prime n \<longleftrightarrow> 2 \<le> n \<and> list_all (\<lambda>d. n mod d \<noteq> 0) [2..n - 1]"

definition reference_primes :: "int \<Rightarrow> int list" where
  "reference_primes N = filter reference_is_prime [1..N]"

section \<open>Threads and schedules\<close>

text \<open>
  Worker threads share state only under a lock, so an execution is an interleaving of
  their atomic steps. A schedule is the list of thread indices in the order in which
  the threads take their steps; \<open>step w s\<close> is one atomic step of a thread in local
  state \<open>w\<close> on the shared state \<open>s\<close>. A thread that is not yet started has simply taken
  no step. Every interleaving is a schedule, and nothing is assumed about the scheduler.
\<close>

fun run_threads :: "('w \<Rightarrow> 's \<Rightarrow> 'w \<times> 's) \<Rightarrow> nat list \<Rightarrow> 'w list \<times> 's \<Rightarrow> 'w list \<times> 's" where
  "run_threads step [] st = st"
| "run_threads step (i # sched) (ws, s) =
     (if i < length ws
      then run_threads step sched (ws[i := fst (step (ws ! i) s)], snd (step (ws ! i) s))
      else run_threads step sched (ws, s))"

section \<open>The result sink\<close>

datatype line =
    FoundA int int  \<comment> \<open>\<open>[Thread <id>] Found prime: <n> (time=...)\<close>\<close>
  | FoundB int      \<comment> \<open>\<open>[B-scheme] Found prime: <n> (time=...)\<close>\<close>

text \<open>\<open>printed\<close> is what went to \<open>std::cout\<close> under \<open>g_printMutex\<close>, \<open>collected\<close> is
  \<open>g_collectedPrimes\<close>, appended to under \<open>g_collectMutex\<close>.\<close>

record sink =
  printed :: "line list"
  collected :: "int list"

definition empty_sink :: sink where
  "empty_sink = \<lparr>printed = [], collected = []\<rparr>"

section \<open>Scheme A: range partition\<close>

record a_worker =
  threadId :: int
  cur :: int
  endNum :: int

text \<open>One iteration of the loop of \<open>workerRangeSchemeA\<close>, at \<open>n = cur w\<close>. The counter
  is an integer of the model: \<open>++n\<close> at \<open>LONG_MAX\<close>, which overflows, leaves it past
  \<open>LONG_MAX\<close>, and the run is then a failure (see \<open>main_run\<close>).\<close>

definition workerRangeSchemeA_step :: "bool \<Rightarrow> a_worker \<Rightarrow> sink \<Rightarrow> a_worker \<times> sink" where
  "workerRangeSchemeA_step printImmediately w s =
     (if cur w \<le> endNum w then
        (w\<lparr>cur := cur w + 1\<rparr>,
         if isPrimeSingleThread (cur w) then
           (if printImmediately
            then s\<lparr>printed := printed s @ [FoundA (threadId w) (cur w)]\<rparr>
            else s\<lparr>collected := collected s @ [cur w]\<rparr>)
         else s)
      else (w, s))"

definition a_finished :: "a_worker \<Rightarrow> bool" where
  "a_finished w \<longleftrightarrow> endNum w < cur w"

text \<open>The spawning loop of \<open>main\<close> for Scheme A, entered at \<open>i\<close> with \<open>start\<close>;
  \<open>threadsA\<close> holds the threads created so far.\<close>

function schemeA_spawn :: "int \<Rightarrow> int \<Rightarrow> int \<Rightarrow> int \<Rightarrow> int \<Rightarrow> a_worker list \<Rightarrow> a_worker list" where
  "schemeA_spawn maxNumber numThreads rangeSize i start threadsA =
     (if i < numThreads then
        let end = (if i = numThreads - 1 then maxNumber else start + rangeSize - 1)
        in schemeA_spawn maxNumber numThreads rangeSize (i + 1) (end + 1)
             (threadsA @ [\<lparr>threadId = i, cur = start, endNum = end\<rparr>])
      else threadsA)"
  by pat_completeness auto
termination
  by (relation "measure (\<lambda>(maxNumber, numThreads, rangeSize, i, start, threadsA). nat (numThreads - i))") auto

declare schemeA_spawn.simps [simp del]

section \<open>Scheme B: divisor splitting\<close>

text \<open>
  A thread running \<open>workerCheckDivRange\<close> is at the head of its loop with the next \<open>d\<close>
  (\<open>AtCheck\<close>), or has seen the flag clear and is about to divide by \<open>d\<close> (\<open>AtTest\<close>), or
  has returned. The loop test and the read of the flag are one step, the division and the
  write of the flag another: each touches the shared flag once, under \<open>flagMutex\<close>.
\<close>

datatype pc = AtCheck int | AtTest int | Returned

record d_worker =
  ip :: pc
  endDiv :: int

definition workerCheckDivRange_step :: "int \<Rightarrow> d_worker \<Rightarrow> bool \<Rightarrow> d_worker \<times> bool" where
  "workerCheckDivRange_step n w compositeFound =
     (case ip w of
        AtCheck d \<Rightarrow>
          (if d \<le> endDiv w then
             (if compositeFound then (w\<lparr>ip := Returned\<rparr>, compositeFound)
              else (w\<lparr>ip := AtTest d\<rparr>, compositeFound))
           else (w\<lparr>ip := Returned\<rparr>, compositeFound))
      | AtTest d \<Rightarrow>
          (if n smod d = 0 then (w\<lparr>ip := Returned\<rparr>, True)
           else (w\<lparr>ip := AtCheck (d + 1)\<rparr>, compositeFound))
      | Returned \<Rightarrow> (w, compositeFound))"

definition d_returned :: "d_worker \<Rightarrow> bool" where
  "d_returned w \<longleftrightarrow> ip w = Returned"

datatype failure =
    DivisionByZero  \<comment> \<open>\<open>totalDivs / numThreads\<close> with \<open>numThreads = 0\<close>\<close>
  | LengthError     \<comment> \<open>\<open>reserve\<close> of a count above \<open>max_size()\<close>, as a negative count is once
                        converted to \<open>size_t\<close>: \<open>std::length_error\<close>, caught nowhere\<close>
  | OutOfBounds     \<comment> \<open>\<open>divisors[i]\<close> outside the vector\<close>
  | SignedOverflow  \<comment> \<open>an increment of a \<open>long\<close> that holds \<open>LONG_MAX\<close>\<close>

text \<open>\<open>for (long d = 3; d <= limit; d += 2) divisors.push_back(d);\<close>\<close>

function divisors_loop :: "int \<Rightarrow> int \<Rightarrow> int list \<Rightarrow> int list" where
  "divisors_loop limit d divisors =
     (if d \<le> limit then divisors_loop limit (d + 2) (divisors @ [d]) else divisors)"
  by pat_completeness auto
termination
  by (relation "measure (\<lambda>(limit, d, divisors). nat (limit + 1 - d))") auto

declare divisors_loop.simps [simp del]

text \<open>The chunk loop of \<open>isPrimeByDivisorThreads\<close>, entered at \<open>t\<close> with \<open>startIndex\<close>;
  \<open>threads\<close> holds the threads created so far.\<close>

function chunk_loop ::
  "int list \<Rightarrow> int \<Rightarrow> int \<Rightarrow> int \<Rightarrow> int \<Rightarrow> d_worker list \<Rightarrow> failure + d_worker list" where
  "chunk_loop divisors numThreads chunkSize t startIndex threads =
     (if t < numThreads then
        let totalDivs = int (length divisors);
            endIndex = (if t = numThreads - 1 then totalDivs - 1 else startIndex + chunkSize - 1)
        in if startIndex > totalDivs - 1 then Inr threads
           else if startIndex < 0 \<or> endIndex < 0 \<or> totalDivs \<le> endIndex then Inl OutOfBounds
           else chunk_loop divisors numThreads chunkSize (t + 1) (endIndex + 1)
                  (threads @ [\<lparr>ip = AtCheck (divisors ! nat startIndex),
                                endDiv = divisors ! nat endIndex\<rparr>])
      else Inr threads)"
  by pat_completeness auto
termination
  by (relation "measure (\<lambda>(divisors, numThreads, chunkSize, t, startIndex, threads). nat (numThreads - t))") auto

declare chunk_loop.simps [simp del]

text \<open>
  The partition of the divisors among the workers (from \<open>totalDivs\<close> to the end of the
  chunk loop): the threads that \<open>isPrimeByDivisorThreads\<close> creates, or the failure with
  which it ends. \<open>numThreads1\<close> is \<open>numThreads\<close> after the collapse to one worker.
\<close>

definition partition_divisors :: "int list \<Rightarrow> int \<Rightarrow> failure + d_worker list" where
  "partition_divisors divisors numThreads =
     (let totalDivs = int (length divisors) in
      if numThreads = 0 then Inl DivisionByZero
      else
        let chunkSize0 = totalDivs sdiv numThreads;
            chunkSize = (if chunkSize0 = 0 then totalDivs else chunkSize0);
            numThreads1 = (if chunkSize0 = 0 then 1 else numThreads)
        in if numThreads1 < 0 then Inl LengthError
           else chunk_loop divisors numThreads1 chunkSize 0 0 [])"

text \<open>
  \<open>isPrimeByDivisorThreads\<close> under a schedule of its worker threads. \<open>None\<close>: the
  schedule ends before every worker has returned, so the joins have not completed.
\<close>

definition isPrimeByDivisorThreads :: "int \<Rightarrow> int \<Rightarrow> nat list \<Rightarrow> (failure + bool) option" where
  "isPrimeByDivisorThreads n numThreads sched =
     (if n < 2 then Some (Inr False)
      else if n = 2 then Some (Inr True)
      else if n smod 2 = 0 then Some (Inr False)
      else
        let limit = sqrt_limit n in
        if limit \<le> 2 then Some (Inr True)
        else
          let divisors = divisors_loop limit 3 [] in
          if divisors = [] then Some (Inr True)
          else
            (case partition_divisors divisors numThreads of
               Inl f \<Rightarrow> Some (Inl f)
             | Inr threads \<Rightarrow>
                 let (ws, compositeFound) =
                       run_threads (workerCheckDivRange_step n) sched (threads, False)
                 in if list_all d_returned ws then Some (Inr (\<not> compositeFound))
                    else None))"

text \<open>The loop of \<open>runSchemeB\<close>, entered at \<open>n\<close>; \<open>scheds n\<close> is the schedule of the
  worker threads of candidate \<open>n\<close>. At \<open>n = LONG_MAX\<close> the increment \<open>++n\<close> that ends the
  iteration overflows.\<close>

function runSchemeB_loop ::
  "int \<Rightarrow> int \<Rightarrow> bool \<Rightarrow> (int \<Rightarrow> nat list) \<Rightarrow> int \<Rightarrow> sink \<Rightarrow> (failure + sink) option" where
  "runSchemeB_loop maxNumber numThreads printImmediately scheds n s =
     (if n \<le> maxNumber then
        (case isPrimeByDivisorThreads n numThreads (scheds n) of
           None \<Rightarrow> None
         | Some (Inl f) \<Rightarrow> Some (Inl f)
         | Some (Inr prime) \<Rightarrow>
             if n = LONG_MAX then Some (Inl SignedOverflow)
             else
               runSchemeB_loop maxNumber numThreads printImmediately scheds (n + 1)
                 (if prime then
                    (if printImmediately then s\<lparr>printed := printed s @ [FoundB n]\<rparr>
                     else s\<lparr>collected := collected s @ [n]\<rparr>)
                  else s))
      else Some (Inr s))"
  by pat_completeness auto
termination
  by (relation "measure (\<lambda>(maxNumber, numThreads, printImmediately, scheds, n, s). nat (maxNumber + 1 - n))") auto

declare runSchemeB_loop.simps [simp del]

definition runSchemeB :: "int \<Rightarrow> int \<Rightarrow> bool \<Rightarrow> (int \<Rightarrow> nat list) \<Rightarrow> sink \<Rightarrow> (failure + sink) option" where
  "runSchemeB maxNumber numThreads printImmediately scheds s =
     runSchemeB_loop maxNumber numThreads printImmediately scheds 2 s"

section \<open>Configuration\<close>

text \<open>\<open>std::stol(value)\<close>, that is \<open>strtol\<close> in base 10: leading white space is skipped,
  a sign is optional, the longest run of digits is converted and whatever follows it is
  ignored; no digit at all is \<open>std::invalid_argument\<close>, a value outside \<open>long\<close> is
  \<open>std::out_of_range\<close>.\<close>

datatype stol_error = InvalidArgument | OutOfRange

definition isspace :: "char \<Rightarrow> bool" where
  "isspace c \<longleftrightarrow> c \<in> set [CHR '' '', CHR 0x09, CHR 0x0A, CHR 0x0B, CHR 0x0C, CHR 0x0D]"

definition isdigit :: "char \<Rightarrow> bool" where
  "isdigit c \<longleftrightarrow> 48 \<le> (of_char c :: nat) \<and> (of_char c :: nat) \<le> 57"

definition digit_value :: "char \<Rightarrow> int" where
  "digit_value c = int (of_char c) - 48"

definition decimal :: "string \<Rightarrow> int" where
  "decimal ds = foldl (\<lambda>a c. 10 * a + digit_value c) 0 ds"

definition stol :: "string \<Rightarrow> stol_error + int" where
  "stol str =
     (let rest = dropWhile isspace str;
          negative = (rest \<noteq> [] \<and> hd rest = CHR ''-'');
          rest1 = (if rest \<noteq> [] \<and> (hd rest = CHR ''-'' \<or> hd rest = CHR ''+'') then tl rest else rest);
          digits = takeWhile isdigit rest1
      in if digits = [] then Inl InvalidArgument
         else let v = (if negative then - decimal digits else decimal digits)
              in if is_long v then Inr v else Inl OutOfRange)"

text \<open>\<open>line.rfind(prefix, 0) == 0\<close>: the line starts with the prefix.\<close>

definition starts_with :: "string \<Rightarrow> string \<Rightarrow> bool" where
  "starts_with prefix line' \<longleftrightarrow> take (length prefix) line' = prefix"

record config =
  threads_value :: int
  maxNumber_value :: int
  threadsSet :: bool
  maxNumberSet :: bool

text \<open>The \<open>getline\<close> loop of \<open>readConfig\<close> over the lines of the file. \<open>Inl\<close> is the
  diagnostic written to \<open>std::cerr\<close> before \<open>std::exit(1)\<close>.\<close>

fun readConfig_loop :: "string list \<Rightarrow> config \<Rightarrow> string + config" where
  "readConfig_loop [] c = Inr c"
| "readConfig_loop (l # ls) c =
     (if starts_with ''threads='' l then
        (let value = drop 8 l in
         case stol value of
           Inl e \<Rightarrow> Inl (''Invalid thread count in config: '' @ value)
         | Inr v \<Rightarrow>
             if v \<le> 0 then Inl (''Invalid thread count in config: '' @ value)
             else readConfig_loop ls (c\<lparr>threads_value := v, threadsSet := True\<rparr>))
      else if starts_with ''maxNumber='' l then
        (let value = drop 10 l in
         case stol value of
           Inl e \<Rightarrow> Inl (''Invalid max number in config: '' @ value)
         | Inr v \<Rightarrow>
             if v \<le> 1 then Inl (''Invalid max number in config: '' @ value)
             else readConfig_loop ls (c\<lparr>maxNumber_value := v, maxNumberSet := True\<rparr>))
      else readConfig_loop ls c)"

text \<open>\<open>readConfig\<close> on the lines of \<open>config.txt\<close>, \<open>None\<close> when the file cannot be opened.
  The result is the diagnostic of a fatal exit with status 1, or \<open>(threads, maxNumber)\<close>.\<close>

definition readConfig :: "string list option \<Rightarrow> string + int \<times> int" where
  "readConfig file =
     (case file of
        None \<Rightarrow> Inl ''Could not open config file: config.txt''
      | Some ls \<Rightarrow>
          (case readConfig_loop ls
                  \<lparr>threads_value = 0, maxNumber_value = 0, threadsSet = False, maxNumberSet = False\<rparr> of
             Inl d \<Rightarrow> Inl d
           | Inr c \<Rightarrow>
               if \<not> threadsSet c \<or> \<not> maxNumberSet c
               then Inl ''Config file is missing 'threads=' or 'maxNumber=' entries.''
               else Inr (threads_value c, maxNumber_value c)))"

section \<open>The orchestrator\<close>

text \<open>What the process writes, as far as the primes are concerned (the echo of the
  configuration and the time stamps are left out).\<close>

datatype event =
    Diagnostic string
  | Found line
  | PrimesFound "int list"  \<comment> \<open>the list after \<open>=== Primes found:\<close>\<close>

definition report :: "bool \<Rightarrow> sink \<Rightarrow> event list" where
  "report printImmediately s =
     map Found (printed s) @
     (if \<not> printImmediately then [PrimesFound (sort (collected s))] else [])"

text \<open>The primes an output reports, in the order of the output.\<close>

fun reported_by :: "event \<Rightarrow> int list" where
  "reported_by (Diagnostic d) = []"
| "reported_by (Found (FoundA t n)) = [n]"
| "reported_by (Found (FoundB n)) = [n]"
| "reported_by (PrimesFound ps) = ps"

definition reported :: "event list \<Rightarrow> int list" where
  "reported out = concat (map reported_by out)"

text \<open>\<open>std::vector<std::thread>::max_size()\<close>: \<open>PTRDIFF_MAX / sizeof(std::thread)\<close>, a thread
  handle taking 8 bytes. \<open>reserve(n)\<close> throws \<open>std::length_error\<close> when \<open>n\<close>, converted to
  \<open>size_t\<close>, is above it; a negative \<open>n\<close> converts to \<open>2^63\<close> at least.\<close>

definition max_size :: int where
  "max_size = LONG_MAX div 8"

text \<open>A worker of Scheme A whose \<open>++n\<close> was executed at \<open>n = LONG_MAX\<close>: its counter stands
  past \<open>LONG_MAX\<close>.\<close>

definition a_overflowed :: "a_worker \<Rightarrow> bool" where
  "a_overflowed w \<longleftrightarrow> LONG_MAX < cur w"

text \<open>\<open>main\<close> from the chosen approach on (steps 3 to 7), with the exit status and the
  output; \<open>None\<close> when the schedules end before the threads are joined. First comes
  \<open>threadsA.reserve(numThreads)\<close>, whatever the choice: the exception it throws for a count
  above \<open>max_size()\<close> is caught nowhere and ends the process. In the spawning loop
  \<open>start = end + 1\<close> is computed for every thread created, and overflows when \<open>end\<close> is
  \<open>LONG_MAX\<close>; so does \<open>++n\<close> in a worker that reaches \<open>LONG_MAX\<close>. With a worker count
  of at least 1 and a bound of at least 2, which is all that \<open>readConfig\<close> lets through,
  nothing else in the loop leaves the range of \<open>long\<close>. Whether the memory for the handles
  and the threads themselves can be had depends on the machine and is not modelled.\<close>

definition main_run ::
  "int \<Rightarrow> int \<Rightarrow> int \<Rightarrow> nat list \<Rightarrow> (int \<Rightarrow> nat list) \<Rightarrow> (failure + int \<times> event list) option" where
  "main_run numThreads maxNumber choice schedA schedsB =
     (let printImmediately = (choice = 1 \<or> choice = 3) in
      if numThreads < 0 \<or> max_size < numThreads then Some (Inl LengthError)
      else if choice = 1 \<or> choice = 2 then
        (if numThreads = 0 then Some (Inl DivisionByZero)
         else
           let rangeSize = maxNumber sdiv numThreads;
               threadsA = schemeA_spawn maxNumber numThreads rangeSize 0 1 []
           in if list_ex (\<lambda>w. LONG_MAX < endNum w + 1) threadsA then Some (Inl SignedOverflow)
              else
                let (ws, s) = run_threads (workerRangeSchemeA_step printImmediately) schedA
                                (threadsA, empty_sink)
                in if list_ex a_overflowed ws then Some (Inl SignedOverflow)
                   else if list_all a_finished ws then Some (Inr (0, report printImmediately s))
                   else None)
      else if choice = 3 \<or> choice = 4 then
        (case runSchemeB maxNumber numThreads printImmediately schedsB empty_sink of
           None \<Rightarrow> None
         | Some (Inl f) \<Rightarrow> Some (Inl f)
         | Some (Inr s) \<Rightarrow> Some (Inr (0, report printImmediately s)))
      else Some (Inr (1, [Diagnostic ''Invalid choice.''])))"

text \<open>\<open>main\<close>: the configuration, then the prompt, repeated until an entry is between 1
  and 4 (\<open>inputs\<close> are the entries; \<open>None\<close> when none of them is accepted), then the run.\<close>

definition main ::
  "string list option \<Rightarrow> int list \<Rightarrow> nat list \<Rightarrow> (int \<Rightarrow> nat list) \<Rightarrow> (failure + int \<times> event list) option" where
  "main file inputs schedA schedsB =
     (case readConfig file of
        Inl d \<Rightarrow> Some (Inr (1, [Diagnostic d]))
      | Inr (numThreads, maxNumber) \<Rightarrow>
          (case find (\<lambda>c. 1 \<le> c \<and> c \<le> 4) inputs of
             None \<Rightarrow> None
           | Some choice \<Rightarrow> main_run numThreads maxNumber choice schedA schedsB))"

section \<open>Notions used by the properties\<close>

text \<open>The integers a Scheme A worker is assigned: its loop runs over \<open>[cur..endNum]\<close>.\<close>

definition a_block :: "a_worker \<Rightarrow> int list" where
  "a_block w = [cur w..endNum w]"

text \<open>The number a line of output reports.\<close>

fun line_value :: "line \<Rightarrow> int" where
  "line_value (FoundA t n) = n"
| "line_value (FoundB n) = n"

text \<open>The primes a Scheme A worker has still to report.\<close>

definition a_pending :: "a_worker \<Rightarrow> int list" where
  "a_pending w = filter isPrimeSingleThread (a_block w)"

text \<open>The divisors a Scheme B worker has still to try, were the flag to stay clear.\<close>

definition d_todo :: "d_worker \<Rightarrow> int list" where
  "d_todo w =
     (case ip w of
        AtCheck d \<Rightarrow> [d..endDiv w]
      | AtTest d \<Rightarrow> d # [d + 1..endDiv w]
      | Returned \<Rightarrow> [])"

text \<open>
  What holds of the workers of one candidate \<open>n\<close> and their flag at every moment, \<open>D\<close>
  being the divisors handed out: the flag is set only when a divisor in \<open>D\<close> divides \<open>n\<close>;
  a divisor in \<open>D\<close> that divides \<open>n\<close> is still to be tried by some worker unless the flag is
  set; and no worker tries a divisor outside \<open>D\<close>.
\<close>

definition d_inv :: "int \<Rightarrow> int set \<Rightarrow> d_worker list \<times> bool \<Rightarrow> bool" where
  "d_inv n D st \<longleftrightarrow>
     (snd st \<longrightarrow> (\<exists>d\<in>D. d dvd n)) \<and>
     (\<forall>d\<in>D. d dvd n \<longrightarrow> snd st \<or> (\<exists>k < length (fst st). d \<in> set (d_todo (fst st ! k)))) \<and>
     (\<forall>k < length (fst st). set (d_todo (fst st ! k)) \<subseteq> D)"

text \<open>Bounds on the number of steps a worker can still take.\<close>

definition a_fuel :: "a_worker \<Rightarrow> nat" where
  "a_fuel w = nat (endNum w + 1 - cur w)"

definition d_fuel :: "d_worker \<Rightarrow> nat" where
  "d_fuel w =
     (case ip w of
        AtCheck d \<Rightarrow> 1 + 2 * nat (endDiv w + 1 - d)
      | AtTest d \<Rightarrow> 2 + 2 * nat (endDiv w - d)
      | Returned \<Rightarrow> 0)"

text \<open>The first and the last index of chunk \<open>t\<close> of the divisor vector.\<close>

definition chunk_start :: "int \<Rightarrow> int \<Rightarrow> int" where
  "chunk_start chunkSize t = t * chunkSize"

definition chunk_end :: "int \<Rightarrow> int \<Rightarrow> int \<Rightarrow> int \<Rightarrow> int" where
  "chunk_end totalDivs numThreads chunkSize t =
     (if t = numThreads - 1 then totalDivs - 1 else chunk_start chunkSize t + chunkSize - 1)"

text \<open>What has been reported, together with what is still to be reported, stays the
  same under every step.\<close>

definition a_total :: "a_worker list \<times> sink \<Rightarrow> int multiset" where
  "a_total st = mset (map line_value (printed (snd st))) + mset (collected (snd st)) +
                mset (concat (map a_pending (fst st)))"

text \<open>A well-formed value in the sense of the spec, as opposed to a malformed or
  non-numeric one: a decimal integer, that is an optional sign, then digits, and nothing
  else.\<close>

definition numeric_value :: "string \<Rightarrow> bool" where
  "numeric_value v \<longleftrightarrow>
     (let ds = (if v \<noteq> [] \<and> (hd v = CHR ''-'' \<or> hd v = CHR ''+'') then tl v else v)
      in ds \<noteq> [] \<and> list_all isdigit ds)"

text \<open>The schedules of a run in which no candidate needs a worker thread.\<close>

definition no_schedules :: "int \<Rightarrow> nat list" where
  "no_schedules n = []"

text \<open>A schedule is fair for a number of threads and a number of turns when each of
  the threads gets at least that many turns.\<close>

definition fair_schedule :: "nat \<Rightarrow> nat \<Rightarrow> nat list \<Rightarrow> bool" where
  "fair_schedule threads turns sched \<longleftrightarrow> (\<forall>i < threads. turns \<le> count_list sched i)"

section \<open>Properties of the square-root limit\<close>

lemma floor_sqrt_bounds:
  "0 \<le> n \<Longrightarrow>
     0 \<le> floor_sqrt n \<and> floor_sqrt n * floor_sqrt n \<le> n \<and>
     n < (floor_sqrt n + 1) * (floor_sqrt n + 1)"
proof (induction n rule: floor_sqrt.induct)
  case (1 n)
  show ?case
  proof (cases "n < 1")
    case True
    with "1.prems" have "n = 0" by simp
    then show ?thesis by (simp add: floor_sqrt.simps)
  next
    case False
    define k where "k = floor_sqrt (n div 4)"
    have ih: "0 \<le> k \<and> k * k \<le> n div 4 \<and> n div 4 < (k + 1) * (k + 1)"
      using "1.IH" [OF False] "1.prems" unfolding k_def by simp
    have a: "4 * (k * k) \<le> n" using ih by linarith
    have "n div 4 + 1 \<le> (k + 1) * (k + 1)" using ih by linarith
    then have b: "n < 4 * ((k + 1) * (k + 1))" by linarith
    have eq: "floor_sqrt n = (if (2 * k + 1) * (2 * k + 1) \<le> n then 2 * k + 1 else 2 * k)"
      using False by (subst floor_sqrt.simps) (simp add: k_def Let_def)
    show ?thesis
    proof (cases "(2 * k + 1) * (2 * k + 1) \<le> n")
      case True
      then show ?thesis using a b ih eq by (simp add: algebra_simps)
    next
      case F2: False
      then show ?thesis using a b ih eq by (simp add: algebra_simps)
    qed
  qed
qed

lemma floor_sqrt_unique:
  assumes "0 \<le> r" "r * r \<le> n" "n < (r + 1) * (r + 1)"
  shows "floor_sqrt n = r"
proof -
  have n0: "0 \<le> n" using assms(1,2) by (meson mult_nonneg_nonneg order_trans)
  define k where "k = floor_sqrt n"
  have k: "0 \<le> k" "k * k \<le> n" "n < (k + 1) * (k + 1)"
    using floor_sqrt_bounds [OF n0] by (simp_all add: k_def)
  have "\<not> k < r"
  proof
    assume "k < r"
    then have "k + 1 \<le> r" by simp
    then have "(k + 1) * (k + 1) \<le> r * r" using k(1) by (intro mult_mono) auto
    with k(3) assms(2) show False by linarith
  qed
  moreover have "\<not> r < k"
  proof
    assume "r < k"
    then have "r + 1 \<le> k" by simp
    then have "(r + 1) * (r + 1) \<le> k * k" using assms(1) by (intro mult_mono) auto
    with k(2) assms(3) show False by linarith
  qed
  ultimately show ?thesis by (simp add: k_def)
qed

lemma floor_sqrt_real: "0 \<le> n \<Longrightarrow> floor_sqrt n = \<lfloor>sqrt (real_of_int n)\<rfloor>"
proof -
  assume n0: "0 \<le> n"
  define k where "k = floor_sqrt n"
  have k: "0 \<le> k" "k * k \<le> n" "n < (k + 1) * (k + 1)"
    using floor_sqrt_bounds [OF n0] by (simp_all add: k_def)
  have "real_of_int k * real_of_int k \<le> real_of_int n"
    using k(2) by (metis of_int_le_iff of_int_mult)
  then have "sqrt (real_of_int k * real_of_int k) \<le> sqrt (real_of_int n)"
    by (rule real_sqrt_le_mono)
  then have l: "real_of_int k \<le> sqrt (real_of_int n)" using k(1) by simp
  have "real_of_int n < real_of_int (k + 1) * real_of_int (k + 1)"
    using k(3) by (metis of_int_less_iff of_int_mult)
  then have "sqrt (real_of_int n) < sqrt (real_of_int (k + 1) * real_of_int (k + 1))"
    by (rule real_sqrt_less_mono)
  then have u: "sqrt (real_of_int n) < real_of_int (k + 1)" using k(1) by simp
  have "\<lfloor>sqrt (real_of_int n)\<rfloor> = k" using l u by (simp add: floor_eq_iff)
  then show ?thesis by (simp add: k_def)
qed

lemma ilog2_bounds: "1 \<le> n \<Longrightarrow> 2 ^ ilog2 n \<le> n \<and> n < 2 ^ Suc (ilog2 n)"
proof (induction n rule: ilog2.induct)
  case (1 n)
  show ?case
  proof (cases "n < 2")
    case True
    with "1.prems" have "n = 1" by simp
    then show ?thesis by (simp add: ilog2.simps)
  next
    case False
    have ih: "2 ^ ilog2 (n div 2) \<le> n div 2 \<and> n div 2 < 2 ^ Suc (ilog2 (n div 2))"
      using "1.IH" [OF False] False by simp
    have eq: "ilog2 n = Suc (ilog2 (n div 2))"
      using False by (subst ilog2.simps) simp
    have a: "2 * 2 ^ ilog2 (n div 2) \<le> n" using ih by linarith
    have "n div 2 + 1 \<le> 2 ^ Suc (ilog2 (n div 2))" using ih by linarith
    then have b: "n < 2 * 2 ^ Suc (ilog2 (n div 2))" by linarith
    show ?thesis using a b by (simp add: eq)
  qed
qed

lemma sq_less_imp_less:
  fixes a b :: int
  assumes "0 \<le> b" "a * a < b * b"
  shows "a < b"
proof (rule ccontr)
  assume "\<not> a < b"
  then have "b \<le> a" by simp
  then have "b * b \<le> a * a" using assms(1) by (intro mult_mono) auto
  with assms(2) show False by simp
qed

lemma sqrt_limit_exact:
  assumes n1: "1 \<le> n" and n63: "n \<le> LONG_MAX"
  shows "sqrt_limit n = floor_sqrt n"
proof -
  define r where "r = floor_sqrt n"
  define e where "e = ilog2 r"
  define s where "s = 63 - e"
  define P :: int where "P = 2 ^ s"
  define m where "m = floor_sqrt (n * 4 ^ s)"
  define q where "q = (if m * m + m < n * 4 ^ s then m + 1 else m)"
  have r: "0 \<le> r" "r * r \<le> n" "n < (r + 1) * (r + 1)"
    using floor_sqrt_bounds [of n] n1 by (simp_all add: r_def)
  have r1: "1 \<le> r"
  proof (rule ccontr)
    assume "\<not> 1 \<le> r"
    with r(1) have "r = 0" by simp
    with r(3) n1 show False by simp
  qed
  have "r * r < 2 ^ 32 * (2 ^ 32 :: int)"
    using r(2) n63 by (simp add: LONG_MAX_def)
  then have r32: "r < 2 ^ 32" by (rule sq_less_imp_less [rotated]) simp
  have e: "2 ^ e \<le> r" "r < 2 ^ Suc e"
    using ilog2_bounds [OF r1] by (simp_all add: e_def)
  have e32: "e < 32"
  proof (rule ccontr)
    assume "\<not> e < 32"
    then have "32 \<le> e" by simp
    then have "(2::int) ^ 32 \<le> 2 ^ e" by (intro power_increasing) auto
    with e(1) r32 show False by linarith
  qed
  then have s32: "32 \<le> s" "Suc e \<le> s" by (simp_all add: s_def)
  have P0: "0 < P" by (simp add: P_def)
  have "(2::int) ^ Suc e \<le> 2 ^ s" using s32(2) by (intro power_increasing) auto
  then have rP: "r < P" using e(2) by (simp add: P_def)
  have "(4::int) ^ s = (2 * 2) ^ s" by simp
  also have "\<dots> = 2 ^ s * 2 ^ s" by (rule power_mult_distrib)
  finally have four: "(4::int) ^ s = P * P" by (simp add: P_def)
  have nP0: "0 \<le> n * (P * P)" using n1 by simp
  have m: "0 \<le> m" "m * m \<le> n * (P * P)" "n * (P * P) < (m + 1) * (m + 1)"
    using floor_sqrt_bounds [OF nP0] by (simp_all add: m_def four)
  have lo: "r * P \<le> m"
  proof -
    have "(r * P) * (r * P) = (r * r) * (P * P)" by (simp only: mult_ac)
    also have "\<dots> \<le> n * (P * P)"
      using r(2) by (rule mult_right_mono) (rule zero_le_square)
    finally have "(r * P) * (r * P) \<le> n * (P * P)" .
    then have "(r * P) * (r * P) < (m + 1) * (m + 1)"
      by (rule le_less_trans) (rule m(3))
    moreover have "0 \<le> m + 1" using m(1) by simp
    ultimately have "r * P < m + 1" by (rule sq_less_imp_less [rotated])
    then show ?thesis by simp
  qed
  have hi: "m < (r + 1) * P"
  proof -
    have "0 < P * P" using P0 P0 by (rule mult_pos_pos)
    with r(3) have "n * (P * P) < ((r + 1) * (r + 1)) * (P * P)"
      by (rule mult_strict_right_mono)
    also have "\<dots> = ((r + 1) * P) * ((r + 1) * P)" by (simp only: mult_ac)
    finally have "m * m < ((r + 1) * P) * ((r + 1) * P)"
      by (rule le_less_trans [OF m(2)])
    moreover have "0 \<le> (r + 1) * P" using r(1) P0 by simp
    ultimately show ?thesis by (rule sq_less_imp_less [rotated])
  qed
  have qhi: "q < (r + 1) * P"
  proof (cases "m * m + m < n * (P * P)")
    case False
    then show ?thesis using hi by (simp add: q_def four)
  next
    case True
    have "m + 1 \<noteq> (r + 1) * P"
    proof
      assume eq: "m + 1 = (r + 1) * P"
      have "m * m + m = m * (m + 1)" by (simp add: algebra_simps)
      also have "\<dots> = ((r + 1) * P - 1) * ((r + 1) * P)" using eq by simp
      also have "\<dots> = (r + 1) * (r + 1) * (P * P) - (r + 1) * P" by (simp add: algebra_simps)
      finally have a: "(r + 1) * (r + 1) * (P * P) - (r + 1) * P < n * (P * P)"
        using True by simp
      have "n + 1 \<le> (r + 1) * (r + 1)" using r(3) by simp
      then have "(n + 1) * (P * P) \<le> ((r + 1) * (r + 1)) * (P * P)"
        by (intro mult_right_mono) auto
      then have b: "n * (P * P) \<le> (r + 1) * (r + 1) * (P * P) - P * P"
        by (simp add: algebra_simps)
      from a b have "P * P < (r + 1) * P" by linarith
      then have "P < r + 1" using P0 by simp
      with rP show False by simp
    qed
    with hi have "m + 1 < (r + 1) * P" by simp
    then show ?thesis using True by (simp add: q_def four)
  qed
  have qlo: "r * P \<le> q" using lo by (simp add: q_def)
  have q0: "0 \<le> q" using qlo r(1) P0 by (meson mult_nonneg_nonneg order_trans less_imp_le)
  define t where "t = q - r * P"
  have t: "0 \<le> t" "t < P" using qlo qhi by (simp_all add: t_def algebra_simps)
  have "q div P = (t + r * P) div P" by (simp add: t_def)
  also have "\<dots> = r + t div P" using P0 by simp
  also have "\<dots> = r" using t by (simp add: div_pos_pos_trivial)
  finally have qdiv: "q div P = r" .
  have qs: "q sdiv P = q div P"
    using q0 P0 by (simp add: signed_divide_int_def sgn_if)
  have "sqrtl n = \<lparr>significand = q, scale = s\<rparr>"
    using n1 unfolding sqrtl_def Let_def q_def m_def s_def e_def r_def by simp
  then have "sqrt_limit n = q sdiv P"
    unfolding sqrt_limit_def to_long_def P_def by simp
  with qdiv qs show ?thesis by (simp add: r_def)
qed

lemma smod_pos: "0 \<le> a \<Longrightarrow> 0 < b \<Longrightarrow> a smod b = a mod (b::int)"
  by (simp add: signed_modulo_int_def sgn_if abs_if)

lemma sdiv_pos: "0 \<le> a \<Longrightarrow> 0 < b \<Longrightarrow> a sdiv b = a div (b::int)"
  by (simp add: signed_divide_int_def sgn_if abs_if)

lemma trial_loop_iff:
  "0 \<le> n \<Longrightarrow> 0 < d \<Longrightarrow>
   trial_loop n limit d \<longleftrightarrow> (\<forall>k. d \<le> k \<and> k \<le> limit \<and> even (k - d) \<longrightarrow> \<not> k dvd n)"
proof (induction n limit d rule: trial_loop.induct)
  case (1 n limit d)
  show ?case
  proof (cases "d \<le> limit")
    case False
    then show ?thesis by (subst trial_loop.simps) auto
  next
    case True
    show ?thesis
    proof (cases "n smod d = 0")
      case z: True
      then have "d dvd n" using "1.prems" by (simp add: smod_pos dvd_eq_mod_eq_0)
      moreover have "trial_loop n limit d = False"
        using True z by (subst trial_loop.simps) simp
      ultimately show ?thesis using True by auto
    next
      case nz: False
      then have nd: "\<not> d dvd n" using "1.prems" by (simp add: smod_pos dvd_eq_mod_eq_0)
      have ih: "trial_loop n limit (d + 2) \<longleftrightarrow>
          (\<forall>k. d + 2 \<le> k \<and> k \<le> limit \<and> even (k - (d + 2)) \<longrightarrow> \<not> k dvd n)"
        using "1.IH" [OF True nz] "1.prems" by simp
      have eq: "trial_loop n limit d = trial_loop n limit (d + 2)"
        using True nz by (subst trial_loop.simps) simp
      have "(\<forall>k. d \<le> k \<and> k \<le> limit \<and> even (k - d) \<longrightarrow> \<not> k dvd n) \<longleftrightarrow>
            (\<forall>k. d + 2 \<le> k \<and> k \<le> limit \<and> even (k - (d + 2)) \<longrightarrow> \<not> k dvd n)"
      proof (intro iffI allI impI)
        fix k assume a: "\<forall>k. d \<le> k \<and> k \<le> limit \<and> even (k - d) \<longrightarrow> \<not> k dvd n"
          and b: "d + 2 \<le> k \<and> k \<le> limit \<and> even (k - (d + 2))"
        from b have "d \<le> k \<and> k \<le> limit \<and> even (k - d)" by auto
        with a show "\<not> k dvd n" by blast
      next
        fix k assume a: "\<forall>k. d + 2 \<le> k \<and> k \<le> limit \<and> even (k - (d + 2)) \<longrightarrow> \<not> k dvd n"
          and b: "d \<le> k \<and> k \<le> limit \<and> even (k - d)"
        show "\<not> k dvd n"
        proof (cases "k = d")
          case True
          then show ?thesis using nd by simp
        next
          case False
          with b have "k \<noteq> d + 1" by auto
          with False b have "d + 2 \<le> k \<and> k \<le> limit \<and> even (k - (d + 2))" by auto
          with a show ?thesis by blast
        qed
      qed
      with ih eq show ?thesis by simp
    qed
  qed
qed

lemma odd_composite_has_small_odd_divisor:
  assumes n: "2 < n" "odd n" and d: "1 < d" "d < n" "d dvd (n::int)"
  shows "\<exists>k. 3 \<le> k \<and> k \<le> floor_sqrt n \<and> odd k \<and> k dvd n"
proof -
  from d(3) obtain e where e: "n = d * e" by (auto simp: dvd_def)
  have e1: "1 < e"
  proof (rule ccontr)
    assume "\<not> 1 < e"
    then have "e \<le> 1" by simp
    then have "d * e \<le> d * 1" using d(1) by (intro mult_left_mono) auto
    with e d(2) show False by simp
  qed
  define k where "k = min d e"
  have k1: "1 < k" using d(1) e1 by (simp add: k_def)
  have kd: "k \<le> d" and ke: "k \<le> e" by (simp_all add: k_def)
  have "k = d \<or> k = e" by (simp add: k_def min_def)
  then have kdvd: "k dvd n" using e by auto
  have oddk: "odd k"
  proof
    assume "even k"
    then have "2 dvd n" using kdvd by (rule dvd_trans)
    with n(2) show False by simp
  qed
  have k3: "3 \<le> k"
  proof (rule ccontr)
    assume "\<not> 3 \<le> k"
    with k1 have "k = 2" by simp
    with oddk show False by simp
  qed
  have "k * k \<le> d * e"
    using kd ke by (rule mult_mono) (use d(1) k1 in simp_all)
  then have kk: "k * k \<le> n" using e by simp
  define r where "r = floor_sqrt n"
  have r: "0 \<le> r" "n < (r + 1) * (r + 1)"
    using floor_sqrt_bounds [of n] n(1) by (simp_all add: r_def)
  have "0 \<le> r + 1" using r(1) by simp
  moreover have "k * k < (r + 1) * (r + 1)" using kk r(2) by simp
  ultimately have "k < r + 1" by (rule sq_less_imp_less)
  then have "k \<le> floor_sqrt n" by (simp add: r_def)
  with k3 oddk kdvd show ?thesis by blast
qed

lemma floor_sqrt_less: "2 \<le> n \<Longrightarrow> floor_sqrt n < n"
proof -
  assume n: "2 \<le> n"
  define r where "r = floor_sqrt n"
  have r: "0 \<le> r" "r * r \<le> n" using floor_sqrt_bounds [of n] n by (simp_all add: r_def)
  show "floor_sqrt n < n"
  proof (cases "r \<le> 1")
    case True
    then show ?thesis using n by (simp add: r_def)
  next
    case False
    then have "2 \<le> r" by simp
    then have "2 * r \<le> r * r" by (intro mult_right_mono) auto
    from this r(2) have "2 * r \<le> n" by (rule order_trans)
    with \<open>2 \<le> r\<close> have "r < n" by linarith
    then show ?thesis by (simp only: r_def)
  qed
qed

lemma isPrimeSingleThread_odd:
  assumes "2 < n" "odd n" "n \<le> LONG_MAX"
  shows "isPrimeSingleThread n \<longleftrightarrow> (\<forall>k. 3 \<le> k \<and> k \<le> floor_sqrt n \<and> odd k \<longrightarrow> \<not> k dvd n)"
proof -
  have "n smod 2 = n mod 2" using assms(1) by (simp add: smod_pos)
  then have nz: "n smod 2 \<noteq> 0" using assms(2) by (simp add: odd_iff_mod_2_eq_one)
  have lim: "sqrt_limit n = floor_sqrt n" using assms by (intro sqrt_limit_exact) auto
  have "isPrimeSingleThread n = trial_loop n (floor_sqrt n) 3"
    using assms(1) nz lim by (simp add: isPrimeSingleThread_def)
  also have "\<dots> \<longleftrightarrow> (\<forall>k. 3 \<le> k \<and> k \<le> floor_sqrt n \<and> even (k - 3) \<longrightarrow> \<not> k dvd n)"
    using assms(1) by (intro trial_loop_iff) auto
  also have "\<dots> \<longleftrightarrow> (\<forall>k. 3 \<le> k \<and> k \<le> floor_sqrt n \<and> odd k \<longrightarrow> \<not> k dvd n)"
    by auto
  finally show ?thesis .
qed

lemma isPrimeSingleThread_is_prime:
  assumes "n \<le> LONG_MAX"
  shows "isPrimeSingleThread n = is_prime n"
proof -
  consider "n < 2" | "n = 2" | "2 < n" "even n" | "2 < n" "odd n" by linarith
  then show ?thesis
  proof cases
    case 1
    then show ?thesis by (simp add: isPrimeSingleThread_def is_prime_def)
  next
    case 2
    have "\<forall>d::int. 1 < d \<and> d < 2 \<longrightarrow> \<not> d dvd 2" by auto
    then show ?thesis using 2 by (simp add: isPrimeSingleThread_def is_prime_def)
  next
    case 3
    have "n smod 2 = n mod 2" using 3(1) by (simp add: smod_pos)
    then have "n smod 2 = 0" using 3(2) by simp
    then have "\<not> isPrimeSingleThread n" using 3(1) by (simp add: isPrimeSingleThread_def)
    moreover have "\<not> is_prime n"
      using 3 unfolding is_prime_def by (auto intro!: exI [of _ 2])
    ultimately show ?thesis by simp
  next
    case 4
    show ?thesis
    proof
      assume p: "isPrimeSingleThread n"
      show "is_prime n"
        unfolding is_prime_def
      proof (intro conjI allI impI)
        show "2 \<le> n" using 4(1) by simp
      next
        fix d assume d: "1 < d \<and> d < n"
        show "\<not> d dvd n"
        proof
          assume "d dvd n"
          with 4 d obtain k where "3 \<le> k \<and> k \<le> floor_sqrt n \<and> odd k \<and> k dvd n"
            using odd_composite_has_small_odd_divisor [of n d] by blast
          with p show False using isPrimeSingleThread_odd [OF 4 assms] by blast
        qed
      qed
    next
      assume p: "is_prime n"
      have "\<forall>k. 3 \<le> k \<and> k \<le> floor_sqrt n \<and> odd k \<longrightarrow> \<not> k dvd n"
      proof (intro allI impI)
        fix k assume k: "3 \<le> k \<and> k \<le> floor_sqrt n \<and> odd k"
        have "floor_sqrt n < n" using 4(1) by (intro floor_sqrt_less) simp
        with k have "1 < k \<and> k < n" by simp
        with p show "\<not> k dvd n" by (simp add: is_prime_def)
      qed
      then show "isPrimeSingleThread n" using isPrimeSingleThread_odd [OF 4 assms] by blast
    qed
  qed
qed

lemma reference_is_prime_iff: "reference_is_prime n = is_prime n"
proof -
  have "(\<forall>d\<in>set [2..n - 1]. n mod d \<noteq> 0) \<longleftrightarrow> (\<forall>d. 1 < d \<and> d < n \<longrightarrow> \<not> d dvd n)"
    by (auto simp: dvd_eq_mod_eq_0)
  then show ?thesis
    unfolding reference_is_prime_def is_prime_def list_all_iff by simp
qed

section \<open>The standalone oracle decides primality\<close>

lemma is_long_simps: "is_long n \<longleftrightarrow> - 9223372036854775808 \<le> n \<and> n \<le> 9223372036854775807"
  by (simp add: is_long_def LONG_MIN_def LONG_MAX_def)

text \<open>
  Claim C3. For every \<open>long\<close> \<open>n\<close>, \<open>isPrimeSingleThread n\<close> is true exactly when \<open>n\<close> is
  prime, and it gets there by the stated steps: below 2 false, 2 true, even false, and
  an odd \<open>n > 2\<close> is prime exactly when no odd \<open>d\<close> from 3 up to \<open>floor (sqrt n)\<close> inclusive
  divides it. The function is total: the model is a terminating function of HOL.
\<close>

theorem isPrimeSingleThread_correct:
  assumes "is_long n"
  shows "(isPrimeSingleThread n \<longleftrightarrow> is_prime n) \<and>
         (n < 2 \<longrightarrow> \<not> isPrimeSingleThread n) \<and>
         (n = 2 \<longrightarrow> isPrimeSingleThread n) \<and>
         (2 < n \<and> even n \<longrightarrow> \<not> isPrimeSingleThread n) \<and>
         (2 < n \<and> odd n \<longrightarrow>
            (isPrimeSingleThread n \<longleftrightarrow>
               (\<forall>d. 3 \<le> d \<and> d \<le> \<lfloor>sqrt (real_of_int n)\<rfloor> \<and> odd d \<longrightarrow> n mod d \<noteq> 0)))"
proof -
  have le: "n \<le> LONG_MAX" using assms by (simp add: is_long_def)
  have p: "isPrimeSingleThread n \<longleftrightarrow> is_prime n"
    using le by (rule isPrimeSingleThread_is_prime)
  have a: "n < 2 \<longrightarrow> \<not> isPrimeSingleThread n"
    by (simp add: isPrimeSingleThread_def)
  have b: "n = 2 \<longrightarrow> isPrimeSingleThread n"
    by (simp add: isPrimeSingleThread_def)
  have c: "2 < n \<and> even n \<longrightarrow> \<not> isPrimeSingleThread n"
  proof
    assume h: "2 < n \<and> even n"
    then have "n smod 2 = n mod 2" by (simp add: smod_pos)
    with h show "\<not> isPrimeSingleThread n" by (simp add: isPrimeSingleThread_def)
  qed
  have d: "2 < n \<and> odd n \<longrightarrow>
            (isPrimeSingleThread n \<longleftrightarrow>
               (\<forall>d. 3 \<le> d \<and> d \<le> \<lfloor>sqrt (real_of_int n)\<rfloor> \<and> odd d \<longrightarrow> n mod d \<noteq> 0))"
  proof
    assume h: "2 < n \<and> odd n"
    then have "floor_sqrt n = \<lfloor>sqrt (real_of_int n)\<rfloor>" by (intro floor_sqrt_real) simp
    then show "isPrimeSingleThread n \<longleftrightarrow>
               (\<forall>d. 3 \<le> d \<and> d \<le> \<lfloor>sqrt (real_of_int n)\<rfloor> \<and> odd d \<longrightarrow> n mod d \<noteq> 0)"
      using isPrimeSingleThread_odd [of n] h le by (simp add: dvd_eq_mod_eq_0)
  qed
  from p a b c d show ?thesis by blast
qed

theorem isPrimeSingleThread_correct_witness:
  "is_long 7 \<and> isPrimeSingleThread 7 \<and> is_prime 7 \<and> is_long 9 \<and> \<not> isPrimeSingleThread 9 \<and> \<not> is_prime 9"
proof -
  have h7: "is_long 7" and h9: "is_long 9" by (simp_all add: is_long_simps)
  have e7: "isPrimeSingleThread 7" by code_simp
  have e9: "\<not> isPrimeSingleThread 9" by code_simp
  from isPrimeSingleThread_correct [OF h7] isPrimeSingleThread_correct [OF h9] h7 h9 e7 e9
  show ?thesis by blast
qed

section \<open>Scheme A: the range assignments\<close>

lemma schemeA_spawn_explicit:
  "schemeA_spawn N W rs i start acc =
     acc @ map (\<lambda>j. \<lparr>threadId = j, cur = start + (j - i) * rs,
                      endNum = (if j = W - 1 then N else start + (j - i + 1) * rs - 1)\<rparr>) [i..W - 1]"
proof (induction N W rs i start acc rule: schemeA_spawn.induct)
  case (1 N W rs i start acc)
  show ?case
  proof (cases "i < W")
    case False
    then show ?thesis by (subst schemeA_spawn.simps) simp
  next
    case True
    define e where "e = (if i = W - 1 then N else start + rs - 1)"
    define w where "w = \<lparr>threadId = i, cur = start, endNum = e\<rparr>"
    have step: "schemeA_spawn N W rs i start acc = schemeA_spawn N W rs (i + 1) (e + 1) (acc @ [w])"
      using True by (subst schemeA_spawn.simps) (simp add: e_def w_def Let_def)
    have ih: "schemeA_spawn N W rs (i + 1) (e + 1) (acc @ [w]) =
        (acc @ [w]) @ map (\<lambda>j. \<lparr>threadId = j, cur = (e + 1) + (j - (i + 1)) * rs,
                      endNum = (if j = W - 1 then N else (e + 1) + (j - (i + 1) + 1) * rs - 1)\<rparr>) [i + 1..W - 1]"
      using "1.IH" [OF True e_def] by (simp add: w_def)
    have up: "[i..W - 1] = i # [i + 1..W - 1]" using True by (simp add: upto_rec1)
    have tl: "map (\<lambda>j. \<lparr>threadId = j, cur = (e + 1) + (j - (i + 1)) * rs,
                      endNum = (if j = W - 1 then N else (e + 1) + (j - (i + 1) + 1) * rs - 1)\<rparr>) [i + 1..W - 1]
            = map (\<lambda>j. \<lparr>threadId = j, cur = start + (j - i) * rs,
                      endNum = (if j = W - 1 then N else start + (j - i + 1) * rs - 1)\<rparr>) [i + 1..W - 1]"
    proof (cases "i = W - 1")
      case True
      then show ?thesis by simp
    next
      case False
      then have "e + 1 = start + rs" by (simp add: e_def)
      then show ?thesis by (simp add: algebra_simps)
    qed
    have hd: "w = \<lparr>threadId = i, cur = start + (i - i) * rs,
                      endNum = (if i = W - 1 then N else start + (i - i + 1) * rs - 1)\<rparr>"
      by (simp add: w_def e_def)
    show ?thesis
      unfolding step ih tl up by (simp add: hd)
  qed
qed

lemma concat_blocks_spawn:
  assumes "0 \<le> rs" "i < W" "start + (W - 1 - i) * rs \<le> N + 1"
  shows "concat (map a_block (schemeA_spawn N W rs i start acc)) = concat (map a_block acc) @ [start..N]"
  using assms
proof (induction N W rs i start acc rule: schemeA_spawn.induct)
  case (1 N W rs i start acc)
  define e where "e = (if i = W - 1 then N else start + rs - 1)"
  define w where "w = \<lparr>threadId = i, cur = start, endNum = e\<rparr>"
  have step: "schemeA_spawn N W rs i start acc = schemeA_spawn N W rs (i + 1) (e + 1) (acc @ [w])"
    using "1.prems"(2) by (subst schemeA_spawn.simps) (simp add: e_def w_def Let_def)
  show ?case
  proof (cases "i = W - 1")
    case True
    then have "schemeA_spawn N W rs (i + 1) (e + 1) (acc @ [w]) = acc @ [w]"
      by (subst schemeA_spawn.simps) simp
    then have "schemeA_spawn N W rs i start acc = acc @ [w]" by (simp only: step)
    moreover have "a_block w = [start..N]" using True by (simp add: a_block_def w_def e_def)
    ultimately show ?thesis by simp
  next
    case False
    then have e: "e = start + rs - 1" by (simp add: e_def)
    have lt: "i + 1 < W" using False "1.prems"(2) by simp
    have "1 \<le> W - 1 - i" using lt by simp
    then have "1 * rs \<le> (W - 1 - i) * rs" using "1.prems"(1) by (rule mult_right_mono)
    then have bound: "start + rs \<le> N + 1" using "1.prems"(3) by simp
    have pre: "(e + 1) + (W - 1 - (i + 1)) * rs \<le> N + 1"
      using "1.prems"(3) by (simp add: e algebra_simps)
    have ih: "concat (map a_block (schemeA_spawn N W rs (i + 1) (e + 1) (acc @ [w]))) =
              concat (map a_block (acc @ [w])) @ [e + 1..N]"
      using "1.IH" [OF "1.prems"(2) e_def "1.prems"(1) lt pre] by (simp add: w_def)
    have split: "[start..N] = [start..start + rs - 1] @ [start + rs..N]"
    proof (cases "start + rs \<le> N")
      case True
      then show ?thesis using "1.prems"(1) by (intro upto_split1) auto
    next
      case F: False
      with bound have "start + rs = N + 1" by simp
      then show ?thesis by simp
    qed
    have "a_block w = [start..start + rs - 1]" by (simp add: a_block_def w_def e)
    then show ?thesis
      unfolding step ih by (simp add: e split)
  qed
qed

lemma div_mult_le_int: "0 < (W::int) \<Longrightarrow> W * (N div W) \<le> N"
  by (metis mult.commute pos_mod_sign add_le_cancel_left div_mult_mod_eq add.right_neutral)

lemma distinct_concat_nth_disjoint:
  "distinct (concat xs) \<Longrightarrow> i < j \<Longrightarrow> j < length xs \<Longrightarrow> set (xs ! i) \<inter> set (xs ! j) = {}"
proof (induction xs arbitrary: i j)
  case Nil
  then show ?case by simp
next
  case (Cons x xs)
  show ?case
  proof (cases i)
    case 0
    then obtain j' where j': "j = Suc j'" using Cons.prems(2) by (cases j) auto
    then have "xs ! j' \<in> set xs" using Cons.prems(3) by simp
    then have "set (xs ! j') \<subseteq> set (concat xs)" by auto
    then show ?thesis using Cons.prems(1) 0 j' by auto
  next
    case (Suc i')
    then obtain j' where j': "j = Suc j'" using Cons.prems(2) by (cases j) auto
    then show ?thesis using Cons.IH [of i' j'] Cons.prems Suc by simp
  qed
qed

lemma schemeA_spawn_main:
  assumes W: "1 \<le> W" and N: "1 < N"
  defines "ws \<equiv> schemeA_spawn N W (N sdiv W) 0 1 []"
  shows "length ws = nat W"
    and "\<And>k. k < nat W \<Longrightarrow> ws ! k = \<lparr>threadId = int k, cur = 1 + int k * (N div W),
            endNum = (if int k = W - 1 then N else (int k + 1) * (N div W))\<rparr>"
    and "concat (map a_block ws) = [1..N]"
proof -
  have sd: "N sdiv W = N div W" using W N by (simp add: sdiv_pos)
  have rs0: "0 \<le> N div W" using W N by (simp add: pos_imp_zdiv_nonneg_iff)
  have ws: "ws = map (\<lambda>j. \<lparr>threadId = j, cur = 1 + j * (N div W),
                      endNum = (if j = W - 1 then N else (j + 1) * (N div W))\<rparr>) [0..W - 1]"
    unfolding ws_def sd schemeA_spawn_explicit by (simp add: algebra_simps)
  show len: "length ws = nat W" by (simp add: ws)
  show "ws ! k = \<lparr>threadId = int k, cur = 1 + int k * (N div W),
            endNum = (if int k = W - 1 then N else (int k + 1) * (N div W))\<rparr>" if "k < nat W" for k
  proof -
    have "[0..W - 1] ! k = 0 + int k" using that by (intro nth_upto) auto
    then show ?thesis using that by (simp add: ws)
  qed
  have "W * (N div W) \<le> N" using W by (intro div_mult_le_int) auto
  then have "(W - 1) * (N div W) \<le> N" using rs0 by (simp add: algebra_simps)
  then have pre: "1 + (W - 1 - 0) * (N div W) \<le> N + 1" by simp
  have "concat (map a_block (schemeA_spawn N W (N div W) 0 1 [])) = concat (map a_block []) @ [1..N]"
    using rs0 _ pre by (rule concat_blocks_spawn) (use W in simp)
  then show "concat (map a_block ws) = [1..N]" by (simp add: ws_def sd)
qed

text \<open>
  Claim C4. For a worker count \<open>W \<ge> 1\<close> and a bound \<open>N > 1\<close>, \<open>main\<close> creates \<open>W\<close> Scheme A
  workers; worker \<open>k\<close> gets the contiguous block that starts at \<open>1 + k * (N / W)\<close> and has
  \<open>N / W\<close> (truncated) elements, the last worker's block ends at \<open>N\<close>. The blocks are
  pairwise disjoint, their union is exactly \<open>[1, N]\<close>, and no block is empty when
  \<open>W \<le> N\<close>. (When \<open>W > N\<close> the chunk size is 0: every block but the last is empty and
  the last is \<open>[1, N]\<close>.)
\<close>

theorem schemeA_assignments_partition:
  assumes "1 \<le> W" and "1 < N"
  shows "let ws = schemeA_spawn N W (N sdiv W) 0 1 [] in
           length ws = nat W \<and>
           (\<forall>k < length ws. threadId (ws ! k) = int k \<and> cur (ws ! k) = 1 + int k * (N div W) \<and>
               endNum (ws ! k) = (if int k = W - 1 then N else cur (ws ! k) + N div W - 1)) \<and>
           (\<forall>i j. i < j \<and> j < length ws \<longrightarrow> set (a_block (ws ! i)) \<inter> set (a_block (ws ! j)) = {}) \<and>
           (\<Union>w\<in>set ws. set (a_block w)) = {1..N} \<and>
           (W \<le> N \<longrightarrow> (\<forall>w\<in>set ws. a_block w \<noteq> []))"
proof -
  define ws where "ws = schemeA_spawn N W (N sdiv W) 0 1 []"
  note m = schemeA_spawn_main [OF assms, folded ws_def]
  have len: "length ws = nat W" by (rule m(1))
  have expl: "\<forall>k < length ws. threadId (ws ! k) = int k \<and> cur (ws ! k) = 1 + int k * (N div W) \<and>
               endNum (ws ! k) = (if int k = W - 1 then N else cur (ws ! k) + N div W - 1)"
  proof (intro allI impI)
    fix k assume "k < length ws"
    then have "k < nat W" by (simp add: len)
    then show "threadId (ws ! k) = int k \<and> cur (ws ! k) = 1 + int k * (N div W) \<and>
               endNum (ws ! k) = (if int k = W - 1 then N else cur (ws ! k) + N div W - 1)"
      by (simp add: m(2) algebra_simps)
  qed
  have dist: "distinct (concat (map a_block ws))" by (simp add: m(3))
  have disj: "\<forall>i j. i < j \<and> j < length ws \<longrightarrow> set (a_block (ws ! i)) \<inter> set (a_block (ws ! j)) = {}"
  proof (intro allI impI)
    fix i j assume ij: "i < j \<and> j < length ws"
    then have "set (map a_block ws ! i) \<inter> set (map a_block ws ! j) = {}"
      using dist by (intro distinct_concat_nth_disjoint) auto
    then show "set (a_block (ws ! i)) \<inter> set (a_block (ws ! j)) = {}" using ij by simp
  qed
  have "(\<Union>w\<in>set ws. set (a_block w)) = set (concat (map a_block ws))" by auto
  then have un: "(\<Union>w\<in>set ws. set (a_block w)) = {1..N}" by (simp add: m(3))
  have ne: "W \<le> N \<longrightarrow> (\<forall>w\<in>set ws. a_block w \<noteq> [])"
  proof (intro impI ballI)
    fix w assume WN: "W \<le> N" and "w \<in> set ws"
    then obtain k where k: "k < nat W" "w = ws ! k" by (auto simp: in_set_conv_nth len)
    have "0 < N div W" using WN assms(1) by (subst pos_imp_zdiv_pos_iff) simp_all
    then have rs1: "1 \<le> N div W" by simp
    have le: "W * (N div W) \<le> N" using assms(1) by (intro div_mult_le_int) auto
    have "cur w \<le> endNum w"
    proof (cases "int k = W - 1")
      case True
      then have "cur w = 1 + (W - 1) * (N div W)" "endNum w = N" using k by (simp_all add: m(2))
      moreover have "(W - 1) * (N div W) = W * (N div W) - N div W" by (simp add: algebra_simps)
      ultimately show ?thesis using le rs1 by linarith
    next
      case False
      then have "cur w = 1 + int k * (N div W)" "endNum w = (int k + 1) * (N div W)"
        using k by (simp_all add: m(2))
      moreover have "(int k + 1) * (N div W) = int k * (N div W) + N div W" by (simp add: algebra_simps)
      ultimately show ?thesis using rs1 by linarith
    qed
    then show "a_block w \<noteq> []" by (simp add: a_block_def)
  qed
  from len expl disj un ne show ?thesis unfolding ws_def [symmetric] Let_def by blast
qed

theorem schemeA_assignments_partition_witness:
  "(1::int) \<le> 4 \<and> (1::int) < 30 \<and>
   map a_block (schemeA_spawn 30 4 (30 sdiv 4) 0 1 []) = [[1..7], [8..14], [15..21], [22..30]] \<and>
   (\<Union>w\<in>set (schemeA_spawn 30 4 (30 sdiv 4) 0 1 []). set (a_block w)) = {1..30}"
proof -
  have e: "map a_block (schemeA_spawn 30 4 (30 sdiv 4) 0 1 []) = [[1..7], [8..14], [15..21], [22..30]]"
    by code_simp
  from schemeA_assignments_partition [of 4 30] e show ?thesis by (simp add: Let_def)
qed

section \<open>Schedules\<close>

lemma run_threads_append:
  "run_threads step (a @ b) st = run_threads step b (run_threads step a st)"
proof (induction a arbitrary: st)
  case Nil
  show ?case by simp
next
  case (Cons i a)
  obtain ws s where st: "st = (ws, s)" by (cases st)
  show ?case by (simp add: st Cons.IH)
qed

lemma run_threads_invariant:
  assumes init: "P st"
    and step: "\<And>ws s i. i < length ws \<Longrightarrow> P (ws, s) \<Longrightarrow>
                 P (ws[i := fst (step (ws ! i) s)], snd (step (ws ! i) s))"
  shows "P (run_threads step sched st)"
  using init
proof (induction sched arbitrary: st)
  case Nil
  then show ?case by simp
next
  case (Cons i sched)
  obtain ws s where st: "st = (ws, s)" by (cases st)
  show ?case
  proof (cases "i < length ws")
    case True
    then have "P (ws[i := fst (step (ws ! i) s)], snd (step (ws ! i) s))"
      using Cons.prems step by (simp add: st)
    then show ?thesis using True by (simp add: st Cons.IH)
  next
    case False
    then show ?thesis using Cons.prems by (simp add: st Cons.IH)
  qed
qed

lemma run_threads_length:
  "length (fst (run_threads step sched (ws, s))) = length ws"
  by (rule run_threads_invariant [where P = "\<lambda>st. length (fst st) = length ws"]) simp_all

lemma sum_list_fuel_update:
  fixes fuel :: "'w \<Rightarrow> nat"
  assumes "i < length ws" "fuel w' < fuel (ws ! i)"
  shows "sum_list (map fuel (ws[i := w'])) < sum_list (map fuel ws)"
proof -
  have a: "ws = take i ws @ ws ! i # drop (Suc i) ws"
    using assms(1) by (rule id_take_nth_drop)
  have b: "ws[i := w'] = take i ws @ w' # drop (Suc i) ws"
    using assms(1) by (rule upd_conv_take_nth_drop)
  have "sum_list (map fuel (ws[i := w'])) =
        sum_list (map fuel (take i ws)) + fuel w' + sum_list (map fuel (drop (Suc i) ws))"
    by (subst b) simp
  moreover have "sum_list (map fuel ws) =
        sum_list (map fuel (take i ws)) + fuel (ws ! i) + sum_list (map fuel (drop (Suc i) ws))"
    by (subst a) simp
  ultimately show ?thesis using assms(2) by simp
qed

text \<open>Whatever has happened so far, the threads can run to completion: when every step
  uses up fuel, some schedule brings every thread's fuel to zero.\<close>

lemma run_threads_complete:
  fixes fuel :: "'w \<Rightarrow> nat"
  assumes dec: "\<And>w s. 0 < fuel w \<Longrightarrow> fuel (fst (step w s)) < fuel w"
  shows "\<exists>sched. \<forall>w\<in>set (fst (run_threads step sched (ws, s))). fuel w = 0"
proof (induction "sum_list (map fuel ws)" arbitrary: ws s rule: less_induct)
  case less
  show ?case
  proof (cases "\<forall>w\<in>set ws. fuel w = 0")
    case True
    then have "\<forall>w\<in>set (fst (run_threads step [] (ws, s))). fuel w = 0" by simp
    then show ?thesis by blast
  next
    case False
    then obtain i where i: "i < length ws" "0 < fuel (ws ! i)"
      by (auto simp: in_set_conv_nth)
    define ws' where "ws' = ws[i := fst (step (ws ! i) s)]"
    define s' where "s' = snd (step (ws ! i) s)"
    have "fuel (fst (step (ws ! i) s)) < fuel (ws ! i)" using i(2) by (rule dec)
    then have "sum_list (map fuel ws') < sum_list (map fuel ws)"
      unfolding ws'_def using i(1) by (intro sum_list_fuel_update)
    then obtain sched where "\<forall>w\<in>set (fst (run_threads step sched (ws', s'))). fuel w = 0"
      using less by blast
    then have "\<forall>w\<in>set (fst (run_threads step (i # sched) (ws, s))). fuel w = 0"
      using i(1) by (simp add: ws'_def s'_def)
    then show ?thesis by blast
  qed
qed

section \<open>Scheme A: what the workers report\<close>

lemma a_step_fuel: "0 < a_fuel w \<Longrightarrow> a_fuel (fst (workerRangeSchemeA_step p w s)) < a_fuel w"
  by (auto simp: a_fuel_def workerRangeSchemeA_step_def)

lemma a_fuel_0: "a_fuel w = 0 \<longleftrightarrow> a_finished w"
  by (auto simp: a_fuel_def a_finished_def)

lemma a_step_total:
  "mset (map line_value (printed (snd (workerRangeSchemeA_step p w s)))) +
   mset (collected (snd (workerRangeSchemeA_step p w s))) +
   mset (a_pending (fst (workerRangeSchemeA_step p w s))) =
   mset (map line_value (printed s)) + mset (collected s) + mset (a_pending w)"
proof (cases "cur w \<le> endNum w")
  case False
  then show ?thesis by (simp add: workerRangeSchemeA_step_def)
next
  case True
  then have "[cur w..endNum w] = cur w # [cur w + 1..endNum w]" by (simp add: upto_rec1)
  then show ?thesis using True
    by (simp add: workerRangeSchemeA_step_def a_pending_def a_block_def)
qed

lemma a_total_step:
  assumes "i < length ws"
  shows "a_total (ws[i := fst (workerRangeSchemeA_step p (ws ! i) s)],
                  snd (workerRangeSchemeA_step p (ws ! i) s)) = a_total (ws, s)"
proof -
  define w' where "w' = fst (workerRangeSchemeA_step p (ws ! i) s)"
  define s' where "s' = snd (workerRangeSchemeA_step p (ws ! i) s)"
  have a: "ws = take i ws @ ws ! i # drop (Suc i) ws"
    using assms by (rule id_take_nth_drop)
  have b: "ws[i := w'] = take i ws @ w' # drop (Suc i) ws"
    using assms by (rule upd_conv_take_nth_drop)
  have st: "mset (map line_value (printed s')) + mset (collected s') + mset (a_pending w') =
            mset (map line_value (printed s)) + mset (collected s) + mset (a_pending (ws ! i))"
    unfolding w'_def s'_def by (rule a_step_total)
  have "a_total (ws[i := w'], s') =
          mset (map line_value (printed s')) + mset (collected s') + mset (a_pending w') +
          (mset (concat (map a_pending (take i ws))) + mset (concat (map a_pending (drop (Suc i) ws))))"
    by (subst b) (simp add: a_total_def)
  also have "\<dots> = mset (map line_value (printed s)) + mset (collected s) + mset (a_pending (ws ! i)) +
          (mset (concat (map a_pending (take i ws))) + mset (concat (map a_pending (drop (Suc i) ws))))"
    by (simp only: st)
  also have "\<dots> = a_total (ws, s)"
    by (subst (3) a) (simp add: a_total_def)
  finally show ?thesis by (simp only: w'_def s'_def)
qed

lemma a_total_run:
  "a_total (run_threads (workerRangeSchemeA_step p) sched st) = a_total st"
proof (rule run_threads_invariant [where P = "\<lambda>x. a_total x = a_total st"])
  show "a_total st = a_total st" by simp
next
  fix ws s i assume "i < length ws" "a_total (ws, s) = a_total st"
  then show "a_total (ws[i := fst (workerRangeSchemeA_step p (ws ! i) s)],
                  snd (workerRangeSchemeA_step p (ws ! i) s)) = a_total st"
    by (simp add: a_total_step)
qed

text \<open>Each mode writes to its own part of the sink.\<close>

lemma a_mode_run:
  assumes "printed (snd st) = []" "collected (snd st) = []"
  shows "(p \<longrightarrow> collected (snd (run_threads (workerRangeSchemeA_step p) sched st)) = []) \<and>
         (\<not> p \<longrightarrow> printed (snd (run_threads (workerRangeSchemeA_step p) sched st)) = [])"
proof (rule run_threads_invariant
    [where P = "\<lambda>x. (p \<longrightarrow> collected (snd x) = []) \<and> (\<not> p \<longrightarrow> printed (snd x) = [])"])
  show "(p \<longrightarrow> collected (snd st) = []) \<and> (\<not> p \<longrightarrow> printed (snd st) = [])"
    using assms by simp
next
  fix ws :: "a_worker list" and s :: sink and i
  assume "i < length ws" "(p \<longrightarrow> collected (snd (ws, s)) = []) \<and> (\<not> p \<longrightarrow> printed (snd (ws, s)) = [])"
  then show "(p \<longrightarrow> collected (snd (ws[i := fst (workerRangeSchemeA_step p (ws ! i) s)],
                  snd (workerRangeSchemeA_step p (ws ! i) s))) = []) \<and>
             (\<not> p \<longrightarrow> printed (snd (ws[i := fst (workerRangeSchemeA_step p (ws ! i) s)],
                  snd (workerRangeSchemeA_step p (ws ! i) s))) = [])"
    by (simp add: workerRangeSchemeA_step_def)
qed

lemma a_finished_pending: "a_finished w \<Longrightarrow> a_pending w = []"
  by (simp add: a_finished_def a_pending_def a_block_def)

lemma a_all_finished_pending:
  "list_all a_finished ws \<Longrightarrow> concat (map a_pending ws) = []"
  by (induction ws) (simp_all add: a_finished_pending)

lemma concat_map_a_pending:
  "concat (map a_pending ws) = filter isPrimeSingleThread (concat (map a_block ws))"
  by (induction ws) (simp_all add: a_pending_def)

section \<open>Fair schedules complete the run\<close>

text \<open>A schedule that gives every thread at least as many turns as it has fuel brings
  every thread to its end, in whatever order the turns come.\<close>

lemma run_threads_fair:
  fixes fuel :: "'w \<Rightarrow> nat"
  assumes dec: "\<And>w s. fuel (fst (step w s)) \<le> fuel w - 1"
    and turns: "\<forall>i < length ws. fuel (ws ! i) \<le> count_list sched i"
  shows "\<forall>w\<in>set (fst (run_threads step sched (ws, s))). fuel w = 0"
  using turns
proof (induction sched arbitrary: ws s)
  case Nil
  then show ?case by (auto simp: in_set_conv_nth)
next
  case (Cons j sched)
  show ?case
  proof (cases "j < length ws")
    case True
    define ws' where "ws' = ws[j := fst (step (ws ! j) s)]"
    have "\<forall>i < length ws'. fuel (ws' ! i) \<le> count_list sched i"
    proof (intro allI impI)
      fix i assume i: "i < length ws'"
      show "fuel (ws' ! i) \<le> count_list sched i"
      proof (cases "i = j")
        case True
        have "fuel (fst (step (ws ! j) s)) \<le> fuel (ws ! j) - 1" by (rule dec)
        also have "\<dots> \<le> count_list (j # sched) j - 1"
          using Cons.prems [rule_format, OF \<open>j < length ws\<close>] by (rule diff_le_mono)
        finally show ?thesis using True i by (simp add: ws'_def)
      next
        case False
        have "i < length ws" using i by (simp add: ws'_def)
        then have "fuel (ws ! i) \<le> count_list (j # sched) i" using Cons.prems by blast
        then show ?thesis using False by (simp add: ws'_def)
      qed
    qed
    then have "\<forall>w\<in>set (fst (run_threads step sched (ws', snd (step (ws ! j) s)))). fuel w = 0"
      by (rule Cons.IH)
    then show ?thesis using True by (simp add: ws'_def)
  next
    case False
    have "\<forall>i < length ws. fuel (ws ! i) \<le> count_list sched i"
      using Cons.prems False by auto
    then have "\<forall>w\<in>set (fst (run_threads step sched (ws, s))). fuel w = 0"
      by (rule Cons.IH)
    then show ?thesis using False by simp
  qed
qed

lemma a_step_fuel_dec: "a_fuel (fst (workerRangeSchemeA_step p w s)) \<le> a_fuel w - 1"
  by (auto simp: a_fuel_def workerRangeSchemeA_step_def)

lemma d_step_fuel_dec: "d_fuel (fst (workerCheckDivRange_step n w f)) \<le> d_fuel w - 1"
  by (cases "ip w") (auto simp: d_fuel_def workerCheckDivRange_step_def)

text \<open>The assignments of Scheme A lie in \<open>[1, N]\<close>: the loop of \<open>main\<close> computes no value
  outside \<open>[0, N + 1]\<close>, and no worker needs more than \<open>N\<close> turns.\<close>

lemma schemeA_spawn_bounds:
  assumes W: "1 \<le> W" and N: "1 < N" and k: "k < nat W"
  defines "ws \<equiv> schemeA_spawn N W (N sdiv W) 0 1 []"
  shows "1 \<le> cur (ws ! k)" and "cur (ws ! k) \<le> N + 1" and "0 \<le> endNum (ws ! k)"
    and "endNum (ws ! k) \<le> N" and "a_fuel (ws ! k) \<le> nat N"
proof -
  note m = schemeA_spawn_main [OF W N, folded ws_def]
  have rs0: "0 \<le> N div W" using W N by (simp add: pos_imp_zdiv_nonneg_iff)
  have le: "W * (N div W) \<le> N" using W by (intro div_mult_le_int) auto
  have k0: "0 \<le> int k * (N div W)" using rs0 by simp
  have "int k + 1 \<le> W" using k by simp
  then have "(int k + 1) * (N div W) \<le> W * (N div W)" using rs0 by (rule mult_right_mono)
  then have k1: "int k * (N div W) + N div W \<le> N" using le by (simp add: algebra_simps)
  have c: "cur (ws ! k) = 1 + int k * (N div W)" using k by (simp add: m(2))
  have e: "endNum (ws ! k) = (if int k = W - 1 then N else int k * (N div W) + N div W)"
    using k by (simp add: m(2) algebra_simps)
  show c1: "1 \<le> cur (ws ! k)" using k0 c by simp
  show "cur (ws ! k) \<le> N + 1" using k1 rs0 c by simp
  show "0 \<le> endNum (ws ! k)" using e k0 rs0 N by simp
  show e1: "endNum (ws ! k) \<le> N" using e k1 by simp
  show "a_fuel (ws ! k) \<le> nat N" using c1 e1 by (simp add: a_fuel_def)
qed

text \<open>A worker of Scheme B needs no more than twice the limit in turns.\<close>

lemma d_fuel_bound:
  assumes "ip w = AtCheck d" and "\<forall>x\<in>set (d_todo w). 3 \<le> x \<and> x \<le> limit" and "3 \<le> limit"
  shows "d_fuel w \<le> 2 * nat limit"
proof (cases "d \<le> endDiv w")
  case True
  then have "d \<in> set (d_todo w)" "endDiv w \<in> set (d_todo w)"
    using assms(1) by (simp_all add: d_todo_def)
  then have "3 \<le> d" "endDiv w \<le> limit" using assms(2) by auto
  then have "nat (endDiv w + 1 - d) \<le> nat (limit - 2)" by simp
  moreover have "nat limit = nat (limit - 2) + 2" using assms(3) by simp
  ultimately show ?thesis using assms(1) by (simp add: d_fuel_def)
next
  case False
  then have "d_fuel w = 1" using assms(1) by (simp add: d_fuel_def)
  then show ?thesis using assms(3) by simp
qed

section \<open>Scheme B: the divisors and their partition\<close>

lemma divisors_loop_explicit:
  "divisors_loop limit d acc = acc @ map (\<lambda>k. d + 2 * int k) [0..<nat ((limit - d + 2) div 2)]"
proof (induction limit d acc rule: divisors_loop.induct)
  case (1 limit d acc)
  show ?case
  proof (cases "d \<le> limit")
    case False
    then have "(limit - d + 2) div 2 \<le> 0" by simp
    then show ?thesis using False by (subst divisors_loop.simps) simp
  next
    case True
    define m where "m = nat ((limit - (d + 2) + 2) div 2)"
    have "(limit - d + 2) div 2 = (limit - (d + 2) + 2) div 2 + 1" by simp
    moreover have "0 \<le> (limit - (d + 2) + 2) div 2" using True by simp
    ultimately have m: "nat ((limit - d + 2) div 2) = Suc m" by (simp add: m_def nat_add_distrib)
    have "divisors_loop limit d acc = divisors_loop limit (d + 2) (acc @ [d])"
      using True by (subst divisors_loop.simps) simp
    also have "\<dots> = (acc @ [d]) @ map (\<lambda>k. d + 2 + 2 * int k) [0..<m]"
      using "1.IH" [OF True] by (simp add: m_def)
    also have "map (\<lambda>k. d + 2 + 2 * int k) [0..<m] = map (\<lambda>k. d + 2 * int k) (map Suc [0..<m])"
      by simp
    also have "map Suc [0..<m] = [Suc 0..<Suc m]" by (rule map_Suc_upt)
    also have "(acc @ [d]) @ map (\<lambda>k. d + 2 * int k) [Suc 0..<Suc m] =
               acc @ map (\<lambda>k. d + 2 * int k) [0..<Suc m]"
      by (simp add: upt_conv_Cons del: upt_Suc)
    finally show ?thesis by (simp only: m)
  qed
qed

lemma divisors_loop_3:
  assumes "3 \<le> limit"
  defines "ds \<equiv> divisors_loop limit 3 []"
  shows "int (length ds) = (limit - 1) div 2"
    and "ds \<noteq> []"
    and "\<And>j. j < length ds \<Longrightarrow> ds ! j = 3 + 2 * int j"
proof -
  have ds: "ds = map (\<lambda>k. 3 + 2 * int k) [0..<nat ((limit - 1) div 2)]"
    unfolding ds_def divisors_loop_explicit by simp
  have pos: "1 \<le> (limit - 1) div 2" using assms(1) by simp
  show "int (length ds) = (limit - 1) div 2" using pos by (simp add: ds)
  show "ds \<noteq> []" using pos by (simp add: ds)
  show "ds ! j = 3 + 2 * int j" if "j < length ds" for j
    using that by (simp add: ds)
qed

text \<open>The worker of chunk \<open>t\<close>.\<close>

lemma chunk_loop_explicit:
  assumes "1 \<le> cs" "W * cs \<le> int (length ds)" "0 \<le> t" "t < W \<longrightarrow> startIndex = t * cs"
  shows "chunk_loop ds W cs t startIndex acc =
           Inr (acc @ map (\<lambda>k. \<lparr>ip = AtCheck (ds ! nat (chunk_start cs (int k))),
                                   endDiv = ds ! nat (chunk_end (int (length ds)) W cs (int k))\<rparr>)
                          [nat t..<nat W])"
  using assms
proof (induction ds W cs t startIndex acc rule: chunk_loop.induct)
  case (1 ds W cs t startIndex acc)
  define total where "total = int (length ds)"
  show ?case
  proof (cases "t < W")
    case False
    then show ?thesis using "1.prems"(3) by (subst chunk_loop.simps) simp
  next
    case True
    have si: "startIndex = t * cs" using True "1.prems"(4) by simp
    define endIndex where "endIndex = (if t = W - 1 then total - 1 else startIndex + cs - 1)"
    have ce: "endIndex = chunk_end total W cs t"
      by (simp add: endIndex_def chunk_end_def chunk_start_def si)
    have cst: "startIndex = chunk_start cs t" by (simp add: chunk_start_def si)
    have "(t + 1) * cs \<le> W * cs" using True "1.prems"(1) by (intro mult_right_mono) auto
    then have le: "t * cs + cs \<le> total" using "1.prems"(2) by (simp add: algebra_simps total_def)
    have "0 \<le> t * cs" using "1.prems"(1,3) by simp
    then have s0: "0 \<le> startIndex" by (simp add: si)
    have nobreak: "\<not> startIndex > total - 1" using le "1.prems"(1) by (simp add: si)
    have e0: "0 \<le> endIndex" using s0 "1.prems"(1) nobreak by (simp add: endIndex_def)
    have e1: "endIndex < total" using le by (simp add: endIndex_def si)
    have nxt: "t + 1 < W \<longrightarrow> endIndex + 1 = (t + 1) * cs"
      by (auto simp: endIndex_def si algebra_simps)
    define w where "w = \<lparr>ip = AtCheck (ds ! nat startIndex), endDiv = ds ! nat endIndex\<rparr>"
    note unf = chunk_loop.simps [of ds W cs t startIndex acc, unfolded Let_def,
        folded total_def, folded endIndex_def]
    have step: "chunk_loop ds W cs t startIndex acc =
                chunk_loop ds W cs (t + 1) (endIndex + 1) (acc @ [w])"
      using True nobreak s0 e0 e1 by (subst unf) (simp add: w_def)
    have n1: "\<not> int (length ds) - 1 < startIndex" using nobreak by (simp add: total_def)
    have n2: "\<not> (startIndex < 0 \<or> endIndex < 0 \<or> int (length ds) \<le> endIndex)"
      using s0 e0 e1 by (simp add: total_def)
    have t1: "0 \<le> t + 1" using "1.prems"(3) by simp
    have ih: "chunk_loop ds W cs (t + 1) (endIndex + 1) (acc @ [w]) =
           Inr ((acc @ [w]) @ map (\<lambda>k. \<lparr>ip = AtCheck (ds ! nat (chunk_start cs (int k))),
                                   endDiv = ds ! nat (chunk_end (int (length ds)) W cs (int k))\<rparr>)
                          [nat (t + 1)..<nat W])"
      unfolding w_def
      by (rule "1.IH" [OF True refl endIndex_def [unfolded total_def] n1 n2 "1.prems"(1,2) t1 nxt])
    have up: "[nat t..<nat W] = nat t # [nat (t + 1)..<nat W]"
      using True "1.prems"(3) by (simp add: upt_conv_Cons nat_add_distrib)
    have wk: "w = \<lparr>ip = AtCheck (ds ! nat (chunk_start cs (int (nat t)))),
                    endDiv = ds ! nat (chunk_end (int (length ds)) W cs (int (nat t)))\<rparr>"
      using "1.prems"(3) by (simp add: w_def cst ce total_def)
    show ?thesis unfolding step ih up by (simp add: wk)
  qed
qed

lemma partition_divisors_explicit:
  assumes W: "1 \<le> W" and ne: "ds \<noteq> []"
  defines "tot \<equiv> int (length ds)"
  defines "cs \<equiv> (if tot div W = 0 then tot else tot div W)"
  defines "W1 \<equiv> (if tot div W = 0 then 1 else W)"
  shows "1 \<le> cs" and "1 \<le> W1" and "W1 * cs \<le> tot"
    and "partition_divisors ds W =
           Inr (map (\<lambda>k. \<lparr>ip = AtCheck (ds ! nat (chunk_start cs (int k))),
                             endDiv = ds ! nat (chunk_end tot W1 cs (int k))\<rparr>) [0..<nat W1])"
proof -
  have t1: "1 \<le> tot" using ne by (cases ds) (simp_all add: tot_def)
  have sd: "tot sdiv W = tot div W" using W t1 by (simp add: sdiv_pos)
  have d0: "0 \<le> tot div W" using W t1 by (simp add: pos_imp_zdiv_nonneg_iff)
  show cs1: "1 \<le> cs" using t1 d0 by (simp add: cs_def)
  show W1: "1 \<le> W1" using W by (simp add: W1_def)
  have "W * (tot div W) \<le> tot" using W by (intro div_mult_le_int) simp
  then show le: "W1 * cs \<le> tot" by (simp add: cs_def W1_def)
  have "partition_divisors ds W = chunk_loop ds W1 cs 0 0 []"
    using W W1 unfolding partition_divisors_def Let_def sd tot_def [symmetric]
    by (simp add: cs_def W1_def)
  also have "\<dots> = Inr ([] @ map (\<lambda>k. \<lparr>ip = AtCheck (ds ! nat (chunk_start cs (int k))),
                             endDiv = ds ! nat (chunk_end (int (length ds)) W1 cs (int k))\<rparr>) [nat 0..<nat W1])"
    using cs1 le by (intro chunk_loop_explicit) (simp_all add: tot_def)
  finally show "partition_divisors ds W =
           Inr (map (\<lambda>k. \<lparr>ip = AtCheck (ds ! nat (chunk_start cs (int k))),
                             endDiv = ds ! nat (chunk_end tot W1 cs (int k))\<rparr>) [0..<nat W1])"
    by (simp add: tot_def)
qed

lemma chunk_bounds:
  assumes "1 \<le> cs" "W1 * cs \<le> tot" "0 \<le> t" "t < W1"
  shows "0 \<le> chunk_start cs t" and "chunk_start cs t \<le> chunk_end tot W1 cs t"
    and "chunk_end tot W1 cs t < tot"
    and "t < W1 - 1 \<Longrightarrow> chunk_start cs (t + 1) = chunk_end tot W1 cs t + 1"
proof -
  have "(t + 1) * cs \<le> W1 * cs" using assms(1,4) by (intro mult_right_mono) auto
  then have le: "t * cs + cs \<le> tot" using assms(2) by (simp add: algebra_simps)
  have t0: "0 \<le> t * cs" using assms(1,3) by simp
  show "0 \<le> chunk_start cs t" using t0 by (simp add: chunk_start_def)
  have "t * cs \<le> tot - 1" using le assms(1) by linarith
  then show "chunk_start cs t \<le> chunk_end tot W1 cs t"
    using assms(1) by (cases "t = W1 - 1") (simp_all add: chunk_start_def chunk_end_def)
  show "chunk_end tot W1 cs t < tot"
    using le by (simp add: chunk_start_def chunk_end_def)
  show "chunk_start cs (t + 1) = chunk_end tot W1 cs t + 1" if "t < W1 - 1"
    using that by (simp add: chunk_start_def chunk_end_def algebra_simps)
qed

lemma chunk_cover:
  assumes cs: "1 \<le> cs" and le: "W1 * cs \<le> tot" and W1: "1 \<le> W1" and j: "0 \<le> j" "j < tot"
  shows "\<exists>!t. 0 \<le> t \<and> t < W1 \<and> chunk_start cs t \<le> j \<and> j \<le> chunk_end tot W1 cs t"
proof (rule ex_ex1I)
  define q where "q = j div cs"
  have q0: "0 \<le> q" using cs j(1) by (simp add: q_def pos_imp_zdiv_nonneg_iff)
  have ql: "q * cs \<le> j" using cs by (simp add: q_def mult.commute div_mult_le_int)
  have "j mod cs < cs" using cs by simp
  then have qu: "j < q * cs + cs" unfolding q_def by (metis add.commute add_strict_left_mono div_mult_mod_eq mult.commute)
  show "\<exists>t. 0 \<le> t \<and> t < W1 \<and> chunk_start cs t \<le> j \<and> j \<le> chunk_end tot W1 cs t"
  proof (cases "q < W1 - 1")
    case True
    then have "0 \<le> q \<and> q < W1 \<and> chunk_start cs q \<le> j \<and> j \<le> chunk_end tot W1 cs q"
      using q0 ql qu by (simp add: chunk_start_def chunk_end_def)
    then show ?thesis by blast
  next
    case False
    then have "W1 - 1 \<le> q" by simp
    then have "(W1 - 1) * cs \<le> q * cs" using cs by (intro mult_right_mono) auto
    then have "chunk_start cs (W1 - 1) \<le> j" using ql by (simp add: chunk_start_def)
    then have "0 \<le> W1 - 1 \<and> W1 - 1 < W1 \<and> chunk_start cs (W1 - 1) \<le> j \<and>
               j \<le> chunk_end tot W1 cs (W1 - 1)"
      using W1 j(2) by (simp add: chunk_end_def)
    then show ?thesis by blast
  qed
next
  fix t u
  assume t: "0 \<le> t \<and> t < W1 \<and> chunk_start cs t \<le> j \<and> j \<le> chunk_end tot W1 cs t"
    and u: "0 \<le> u \<and> u < W1 \<and> chunk_start cs u \<le> j \<and> j \<le> chunk_end tot W1 cs u"
  have apart: False if a: "0 \<le> a \<and> a < W1 \<and> chunk_start cs a \<le> j \<and> j \<le> chunk_end tot W1 cs a"
    and b: "0 \<le> b \<and> b < W1 \<and> chunk_start cs b \<le> j \<and> j \<le> chunk_end tot W1 cs b"
    and ab: "a < b" for a b
  proof -
    have "a \<noteq> W1 - 1" using ab b by simp
    then have "j \<le> a * cs + cs - 1" using a by (simp add: chunk_end_def chunk_start_def)
    moreover have "(a + 1) * cs \<le> b * cs" using ab cs by (intro mult_right_mono) auto
    then have "a * cs + cs \<le> b * cs" by (simp add: algebra_simps)
    moreover have "b * cs \<le> j" using b by (simp add: chunk_start_def)
    ultimately show False by linarith
  qed
  show "t = u" using apart [OF t u] apart [OF u t] by (cases t u rule: linorder_cases) auto
qed

lemma partition_divisors_workers:
  assumes W: "1 \<le> W" and lim: "3 \<le> limit"
  defines "ds \<equiv> divisors_loop limit 3 []"
  defines "tot \<equiv> int (length ds)"
  defines "cs \<equiv> (if tot div W = 0 then tot else tot div W)"
  defines "W1 \<equiv> (if tot div W = 0 then 1 else W)"
  shows "\<exists>ws. partition_divisors ds W = Inr ws \<and> length ws = nat W1 \<and>
           (\<forall>k < nat W1. ws ! k = \<lparr>ip = AtCheck (ds ! nat (chunk_start cs (int k))),
                                      endDiv = ds ! nat (chunk_end tot W1 cs (int k))\<rparr> \<and>
                          d_todo (ws ! k) = [3 + 2 * chunk_start cs (int k)..3 + 2 * chunk_end tot W1 cs (int k)])"
proof -
  note d3 = divisors_loop_3 [OF lim, folded ds_def]
  note pe = partition_divisors_explicit [OF W d3(2), folded tot_def, folded cs_def W1_def]
  define ws where "ws = map (\<lambda>k. \<lparr>ip = AtCheck (ds ! nat (chunk_start cs (int k))),
                             endDiv = ds ! nat (chunk_end tot W1 cs (int k))\<rparr>) [0..<nat W1]"
  have p: "partition_divisors ds W = Inr ws" unfolding ws_def by (rule pe(4))
  have len: "length ws = nat W1" by (simp add: ws_def)
  have nth: "ws ! k = \<lparr>ip = AtCheck (ds ! nat (chunk_start cs (int k))),
                        endDiv = ds ! nat (chunk_end tot W1 cs (int k))\<rparr> \<and>
             d_todo (ws ! k) = [3 + 2 * chunk_start cs (int k)..3 + 2 * chunk_end tot W1 cs (int k)]"
    if k: "k < nat W1" for k
  proof -
    have t: "0 \<le> int k" "int k < W1" using k by simp_all
    note cb = chunk_bounds [OF pe(1) pe(3) t]
    have wk: "ws ! k = \<lparr>ip = AtCheck (ds ! nat (chunk_start cs (int k))),
                        endDiv = ds ! nat (chunk_end tot W1 cs (int k))\<rparr>"
      using k by (simp add: ws_def)
    have e0: "0 \<le> chunk_end tot W1 cs (int k)" using cb(1,2) by simp
    have "nat (chunk_start cs (int k)) < length ds" using cb by (simp add: tot_def)
    then have a: "ds ! nat (chunk_start cs (int k)) = 3 + 2 * chunk_start cs (int k)"
      using cb(1) by (simp add: d3(3))
    have "nat (chunk_end tot W1 cs (int k)) < length ds" using cb e0 by (simp add: tot_def)
    then have b: "ds ! nat (chunk_end tot W1 cs (int k)) = 3 + 2 * chunk_end tot W1 cs (int k)"
      using e0 by (simp add: d3(3))
    show ?thesis by (simp add: wk d_todo_def a b)
  qed
  from p len nth show ?thesis by blast
qed

lemma partition_divisors_cover:
  assumes W: "1 \<le> W" and lim: "3 \<le> limit"
  shows "\<exists>ws. partition_divisors (divisors_loop limit 3 []) W = Inr ws \<and>
           (\<forall>w\<in>set ws. \<exists>d. ip w = AtCheck d) \<and>
           (\<forall>w\<in>set ws. \<forall>d\<in>set (d_todo w). 3 \<le> d \<and> d \<le> limit) \<and>
           (\<forall>d. 3 \<le> d \<and> d \<le> limit \<and> odd d \<longrightarrow> (\<exists>!k. k < length ws \<and> d \<in> set (d_todo (ws ! k))))"
proof -
  define ds where "ds = divisors_loop limit 3 []"
  define tot where "tot = int (length ds)"
  define cs where "cs = (if tot div W = 0 then tot else tot div W)"
  define W1 where "W1 = (if tot div W = 0 then 1 else W)"
  note d3 = divisors_loop_3 [OF lim, folded ds_def]
  note pe = partition_divisors_explicit [OF W d3(2), folded tot_def, folded cs_def W1_def]
  have tot: "tot = (limit - 1) div 2" using d3(1) by (simp add: tot_def)
  obtain ws where p: "partition_divisors ds W = Inr ws" and len: "length ws = nat W1"
    and nth: "\<And>k. k < nat W1 \<Longrightarrow>
        ws ! k = \<lparr>ip = AtCheck (ds ! nat (chunk_start cs (int k))),
                   endDiv = ds ! nat (chunk_end tot W1 cs (int k))\<rparr> \<and>
        d_todo (ws ! k) = [3 + 2 * chunk_start cs (int k)..3 + 2 * chunk_end tot W1 cs (int k)]"
    using partition_divisors_workers [OF W lim, folded ds_def, folded tot_def, folded cs_def W1_def]
    by blast
  have nthd: "d_todo (ws ! k) = [3 + 2 * chunk_start cs (int k)..3 + 2 * chunk_end tot W1 cs (int k)]"
    if "k < nat W1" for k using nth [OF that] by (rule conjunct2)
  have nthw: "ws ! k = \<lparr>ip = AtCheck (ds ! nat (chunk_start cs (int k))),
                   endDiv = ds ! nat (chunk_end tot W1 cs (int k))\<rparr>"
    if "k < nat W1" for k using nth [OF that] by (rule conjunct1)
  have a: "\<forall>w\<in>set ws. \<exists>d. ip w = AtCheck d"
  proof
    fix w assume "w \<in> set ws"
    then obtain k where "k < nat W1" "w = ws ! k" by (auto simp: in_set_conv_nth len)
    then show "\<exists>d. ip w = AtCheck d" using nthw [of k] by simp
  qed
  have b: "\<forall>w\<in>set ws. \<forall>d\<in>set (d_todo w). 3 \<le> d \<and> d \<le> limit"
  proof (intro ballI)
    fix w d assume "w \<in> set ws" and d: "d \<in> set (d_todo w)"
    then obtain k where k: "k < nat W1" "w = ws ! k" by (auto simp: in_set_conv_nth len)
    have t: "0 \<le> int k" "int k < W1" using k by simp_all
    note cb = chunk_bounds [OF pe(1) pe(3) t]
    have "d \<in> set [3 + 2 * chunk_start cs (int k)..3 + 2 * chunk_end tot W1 cs (int k)]"
      using d k(2) nthd [OF k(1)] by simp
    then have "3 + 2 * chunk_start cs (int k) \<le> d" "d \<le> 3 + 2 * chunk_end tot W1 cs (int k)"
      by simp_all
    moreover have "2 * tot \<le> limit - 1" unfolding tot by simp
    ultimately show "3 \<le> d \<and> d \<le> limit" using cb(1,3) by linarith
  qed
  have c: "\<forall>d. 3 \<le> d \<and> d \<le> limit \<and> odd d \<longrightarrow> (\<exists>!k. k < length ws \<and> d \<in> set (d_todo (ws ! k)))"
  proof (intro allI impI)
    fix d assume d: "3 \<le> d \<and> d \<le> limit \<and> odd d"
    define j where "j = (d - 3) div 2"
    have dj: "d = 3 + 2 * j" using d unfolding j_def by presburger
    have j0: "0 \<le> j" using d by (simp add: j_def)
    have "2 * j + 3 \<le> limit" using d dj by simp
    then have jt: "j < tot" unfolding tot by simp
    have mem: "d \<in> set (d_todo (ws ! k)) \<longleftrightarrow>
               chunk_start cs (int k) \<le> j \<and> j \<le> chunk_end tot W1 cs (int k)"
      if "k < nat W1" for k
      by (simp add: nthd [OF that] dj)
    from chunk_cover [OF pe(1) pe(3) pe(2) j0 jt]
    obtain t where t: "0 \<le> t \<and> t < W1 \<and> chunk_start cs t \<le> j \<and> j \<le> chunk_end tot W1 cs t"
      and uniq: "\<And>u. 0 \<le> u \<and> u < W1 \<and> chunk_start cs u \<le> j \<and> j \<le> chunk_end tot W1 cs u \<Longrightarrow> u = t"
      by (auto elim: ex1E)
    show "\<exists>!k. k < length ws \<and> d \<in> set (d_todo (ws ! k))"
    proof (rule ex1I [of _ "nat t"])
      have "nat t < nat W1" using t by simp
      then show "nat t < length ws \<and> d \<in> set (d_todo (ws ! nat t))"
        using t by (simp add: len mem)
    next
      fix k assume k: "k < length ws \<and> d \<in> set (d_todo (ws ! k))"
      then have kW: "k < nat W1" by (simp add: len)
      then have "0 \<le> int k \<and> int k < W1 \<and> chunk_start cs (int k) \<le> j \<and>
                 j \<le> chunk_end tot W1 cs (int k)"
        using k by (simp add: mem)
      then have "int k = t" by (rule uniq)
      then show "k = nat t" by simp
    qed
  qed
  from p a b c show ?thesis unfolding ds_def by blast
qed

text \<open>
  Claim C10. With \<open>W \<ge> 1\<close> workers and the divisors \<open>3, 5, ...\<close> up to \<open>limit \<ge> 3\<close>: when
  \<open>totalDivs / W\<close> is zero there is exactly one worker, and it covers the whole divisor
  list; otherwise there are exactly \<open>W\<close> workers (the \<open>break\<close> on
  \<open>startIndex > totalDivs - 1\<close> is never taken), worker \<open>t\<close>
  gets the divisors with indices from \<open>chunk_start t\<close> to \<open>chunk_end t\<close>, these chunks are not
  empty, start at index 0, follow one another without gap or overlap and end at the last
  index, so each index lies in exactly one chunk. In both cases every odd divisor in
  \<open>[3, limit]\<close> belongs to exactly one worker.
\<close>

theorem divisor_chunks_partition:
  assumes "1 \<le> W" and "3 \<le> limit"
  shows "let divisors = divisors_loop limit 3 [];
             totalDivs = int (length divisors);
             chunkSize = totalDivs sdiv W
         in divisors \<noteq> [] \<and>
            (chunkSize = 0 \<longrightarrow>
               partition_divisors divisors W = Inr [\<lparr>ip = AtCheck (hd divisors), endDiv = last divisors\<rparr>]) \<and>
            (chunkSize \<noteq> 0 \<longrightarrow>
               (\<exists>ws. partition_divisors divisors W = Inr ws \<and> length ws = nat W \<and>
                  (\<forall>k < nat W. ws ! k =
                      \<lparr>ip = AtCheck (divisors ! nat (chunk_start chunkSize (int k))),
                       endDiv = divisors ! nat (chunk_end totalDivs W chunkSize (int k))\<rparr>)) \<and>
               chunk_start chunkSize 0 = 0 \<and>
               chunk_end totalDivs W chunkSize (W - 1) = totalDivs - 1 \<and>
               (\<forall>t. 0 \<le> t \<and> t < W \<longrightarrow>
                    chunk_start chunkSize t \<le> chunk_end totalDivs W chunkSize t \<and>
                    \<not> chunk_start chunkSize t > totalDivs - 1) \<and>
               (\<forall>t. 0 \<le> t \<and> t < W - 1 \<longrightarrow>
                    chunk_start chunkSize (t + 1) = chunk_end totalDivs W chunkSize t + 1) \<and>
               (\<forall>j. 0 \<le> j \<and> j < totalDivs \<longrightarrow>
                    (\<exists>!t. 0 \<le> t \<and> t < W \<and> chunk_start chunkSize t \<le> j \<and>
                          j \<le> chunk_end totalDivs W chunkSize t))) \<and>
            (\<exists>ws. partition_divisors divisors W = Inr ws \<and>
               (\<forall>d. 3 \<le> d \<and> d \<le> limit \<and> odd d \<longrightarrow>
                    (\<exists>!k. k < length ws \<and> d \<in> set (d_todo (ws ! k)))))"
proof -
  define ds where "ds = divisors_loop limit 3 []"
  define tot where "tot = int (length ds)"
  define cs where "cs = (if tot div W = 0 then tot else tot div W)"
  define W1 where "W1 = (if tot div W = 0 then 1 else W)"
  note d3 = divisors_loop_3 [OF assms(2), folded ds_def]
  note pe = partition_divisors_explicit [OF assms(1) d3(2), folded tot_def, folded cs_def W1_def]
  have t1: "1 \<le> tot" using d3(2) by (cases ds) (simp_all add: tot_def)
  have sd: "tot sdiv W = tot div W" using assms(1) t1 by (simp add: sdiv_pos)
  have collapse: "partition_divisors ds W = Inr [\<lparr>ip = AtCheck (hd ds), endDiv = last ds\<rparr>]"
    if z: "tot div W = 0"
  proof -
    have "nat (tot - 1) = length ds - 1" by (simp add: tot_def)
    then have "ds ! nat (tot - 1) = last ds" using d3(2) by (simp add: last_conv_nth)
    moreover have "ds ! 0 = hd ds" using d3(2) by (simp add: hd_conv_nth)
    ultimately show ?thesis
      using pe(4) z by (simp add: cs_def W1_def chunk_start_def chunk_end_def)
  qed
  have split: "(\<exists>ws. partition_divisors ds W = Inr ws \<and> length ws = nat W \<and>
                  (\<forall>k < nat W. ws ! k =
                      \<lparr>ip = AtCheck (ds ! nat (chunk_start (tot div W) (int k))),
                       endDiv = ds ! nat (chunk_end tot W (tot div W) (int k))\<rparr>)) \<and>
               chunk_start (tot div W) 0 = 0 \<and>
               chunk_end tot W (tot div W) (W - 1) = tot - 1 \<and>
               (\<forall>t. 0 \<le> t \<and> t < W \<longrightarrow>
                    chunk_start (tot div W) t \<le> chunk_end tot W (tot div W) t \<and>
                    \<not> chunk_start (tot div W) t > tot - 1) \<and>
               (\<forall>t. 0 \<le> t \<and> t < W - 1 \<longrightarrow>
                    chunk_start (tot div W) (t + 1) = chunk_end tot W (tot div W) t + 1) \<and>
               (\<forall>j. 0 \<le> j \<and> j < tot \<longrightarrow>
                    (\<exists>!t. 0 \<le> t \<and> t < W \<and> chunk_start (tot div W) t \<le> j \<and>
                          j \<le> chunk_end tot W (tot div W) t))"
    if nz: "tot div W \<noteq> 0"
  proof -
    have cs: "cs = tot div W" and W1: "W1 = W" using nz by (simp_all add: cs_def W1_def)
    note pe' = pe [unfolded cs W1]
    have 1: "\<exists>ws. partition_divisors ds W = Inr ws \<and> length ws = nat W \<and>
                  (\<forall>k < nat W. ws ! k =
                      \<lparr>ip = AtCheck (ds ! nat (chunk_start (tot div W) (int k))),
                       endDiv = ds ! nat (chunk_end tot W (tot div W) (int k))\<rparr>)"
      using pe'(4) by simp
    have 2: "chunk_start (tot div W) 0 = 0" by (simp add: chunk_start_def)
    have 3: "chunk_end tot W (tot div W) (W - 1) = tot - 1" by (simp add: chunk_end_def)
    have 4: "\<forall>t. 0 \<le> t \<and> t < W \<longrightarrow>
                    chunk_start (tot div W) t \<le> chunk_end tot W (tot div W) t \<and>
                    \<not> chunk_start (tot div W) t > tot - 1"
    proof (intro allI impI)
      fix t assume t: "0 \<le> t \<and> t < W"
      then have "chunk_start (tot div W) t \<le> chunk_end tot W (tot div W) t"
        "chunk_end tot W (tot div W) t < tot"
        using chunk_bounds(2,3) [OF pe'(1) pe'(3)] by blast+
      then show "chunk_start (tot div W) t \<le> chunk_end tot W (tot div W) t \<and>
                    \<not> chunk_start (tot div W) t > tot - 1" by simp
    qed
    have 5: "\<forall>t. 0 \<le> t \<and> t < W - 1 \<longrightarrow>
                    chunk_start (tot div W) (t + 1) = chunk_end tot W (tot div W) t + 1"
      using chunk_bounds(4) [OF pe'(1) pe'(3)] by simp
    have 6: "\<forall>j. 0 \<le> j \<and> j < tot \<longrightarrow>
                    (\<exists>!t. 0 \<le> t \<and> t < W \<and> chunk_start (tot div W) t \<le> j \<and>
                          j \<le> chunk_end tot W (tot div W) t)"
      using chunk_cover [OF pe'(1) pe'(3) pe'(2)] by blast
    from 1 2 3 4 5 6 show ?thesis by blast
  qed
  have cover: "\<exists>ws. partition_divisors ds W = Inr ws \<and>
               (\<forall>d. 3 \<le> d \<and> d \<le> limit \<and> odd d \<longrightarrow>
                    (\<exists>!k. k < length ws \<and> d \<in> set (d_todo (ws ! k))))"
    using partition_divisors_cover [OF assms] unfolding ds_def by blast
  show ?thesis
    unfolding Let_def ds_def [symmetric] tot_def [symmetric] sd
    using d3(2) collapse split cover by blast
qed

theorem divisor_chunks_partition_witness:
  "(1::int) \<le> 2 \<and> (3::int) \<le> 13 \<and>
   partition_divisors (divisors_loop 13 3 []) 2 =
     Inr [\<lparr>ip = AtCheck 3, endDiv = 7\<rparr>, \<lparr>ip = AtCheck 9, endDiv = 13\<rparr>] \<and>
   partition_divisors (divisors_loop 5 3 []) 4 = Inr [\<lparr>ip = AtCheck 3, endDiv = 5\<rparr>] \<and>
   (\<exists>!k. k < 2 \<and> (11::int) \<in> set (d_todo ([\<lparr>ip = AtCheck 3, endDiv = 7\<rparr>, \<lparr>ip = AtCheck 9, endDiv = 13\<rparr>] ! k)))"
proof -
  have a: "partition_divisors (divisors_loop 13 3 []) 2 =
     Inr [\<lparr>ip = AtCheck 3, endDiv = 7\<rparr>, \<lparr>ip = AtCheck 9, endDiv = 13\<rparr>]" by code_simp
  have b: "partition_divisors (divisors_loop 5 3 []) 4 = Inr [\<lparr>ip = AtCheck 3, endDiv = 5\<rparr>]"
    by code_simp
  have "\<exists>ws. partition_divisors (divisors_loop 13 3 []) 2 = Inr ws \<and>
               (\<forall>d. 3 \<le> d \<and> d \<le> 13 \<and> odd d \<longrightarrow>
                    (\<exists>!k. k < length ws \<and> d \<in> set (d_todo (ws ! k))))"
    using divisor_chunks_partition [of 2 13] by (simp add: Let_def)
  then obtain ws where ws: "[\<lparr>ip = AtCheck 3, endDiv = 7\<rparr>, \<lparr>ip = AtCheck 9, endDiv = 13\<rparr>] = ws"
    and al: "\<forall>d. 3 \<le> d \<and> d \<le> 13 \<and> odd d \<longrightarrow>
                    (\<exists>!k. k < length ws \<and> d \<in> set (d_todo (ws ! k)))"
    unfolding a by auto
  have "(3::int) \<le> 11 \<and> (11::int) \<le> 13 \<and> odd (11::int)" by simp
  with al have "\<exists>!k. k < length ws \<and> (11::int) \<in> set (d_todo (ws ! k))" by blast
  then have c: "\<exists>!k. k < 2 \<and> (11::int) \<in> set (d_todo ([\<lparr>ip = AtCheck 3, endDiv = 7\<rparr>, \<lparr>ip = AtCheck 9, endDiv = 13\<rparr>] ! k))"
    unfolding ws [symmetric] by (simp add: numeral_2_eq_2)
  from a b c show ?thesis by simp
qed

section \<open>Scheme B: the cooperating workers\<close>

lemma smod_0_iff_dvd: "0 \<le> n \<Longrightarrow> 0 < d \<Longrightarrow> n smod d = 0 \<longleftrightarrow> d dvd (n::int)"
  by (simp add: smod_pos dvd_eq_mod_eq_0)

lemma d_step_fuel: "0 < d_fuel w \<Longrightarrow> d_fuel (fst (workerCheckDivRange_step n w f)) < d_fuel w"
  by (cases "ip w") (auto simp: d_fuel_def workerCheckDivRange_step_def)

lemma d_fuel_0: "d_fuel w = 0 \<longleftrightarrow> d_returned w"
  by (cases "ip w") (auto simp: d_fuel_def d_returned_def)

lemma d_returned_todo: "d_returned w \<Longrightarrow> d_todo w = []"
  by (simp add: d_returned_def d_todo_def)

text \<open>One step of one worker.\<close>

lemma d_step_flag_mono: "f \<Longrightarrow> snd (workerCheckDivRange_step n w f)"
  by (cases "ip w") (auto simp: workerCheckDivRange_step_def)

lemma d_step_todo_subset:
  "set (d_todo (fst (workerCheckDivRange_step n w f))) \<subseteq> set (d_todo w)"
proof (cases "ip w")
  case (AtCheck d)
  then show ?thesis
    by (auto simp: workerCheckDivRange_step_def d_todo_def upto_rec1 [of d])
next
  case (AtTest d)
  then show ?thesis by (auto simp: workerCheckDivRange_step_def d_todo_def)
next
  case Returned
  then show ?thesis by (simp add: workerCheckDivRange_step_def d_todo_def)
qed

lemma d_step_flag_set:
  assumes "snd (workerCheckDivRange_step n w f)" "\<not> f"
  shows "\<exists>d\<in>set (d_todo w). n smod d = 0"
proof (cases "ip w")
  case (AtCheck d)
  then show ?thesis using assms by (auto simp: workerCheckDivRange_step_def split: if_splits)
next
  case (AtTest d)
  then show ?thesis using assms
    by (auto simp: workerCheckDivRange_step_def d_todo_def split: if_splits)
next
  case Returned
  then show ?thesis using assms by (simp add: workerCheckDivRange_step_def)
qed

lemma d_step_todo_dropped:
  assumes "d \<in> set (d_todo w)" "d \<notin> set (d_todo (fst (workerCheckDivRange_step n w f)))"
  shows "snd (workerCheckDivRange_step n w f) \<or> n smod d \<noteq> 0"
proof (cases "ip w")
  case (AtCheck c)
  then show ?thesis using assms
    by (auto simp: workerCheckDivRange_step_def d_todo_def upto_rec1 [of c] split: if_splits)
next
  case (AtTest c)
  then show ?thesis using assms
    by (auto simp: workerCheckDivRange_step_def d_todo_def split: if_splits)
next
  case Returned
  then show ?thesis using assms by (simp add: d_todo_def)
qed

lemma d_inv_step:
  assumes n: "0 \<le> n" and D: "\<forall>d\<in>D. 0 < d" and i: "i < length ws" and inv: "d_inv n D (ws, f)"
  shows "d_inv n D (ws[i := fst (workerCheckDivRange_step n (ws ! i) f)],
                    snd (workerCheckDivRange_step n (ws ! i) f))"
proof -
  define w' where "w' = fst (workerCheckDivRange_step n (ws ! i) f)"
  define f' where "f' = snd (workerCheckDivRange_step n (ws ! i) f)"
  have a: "f \<longrightarrow> (\<exists>d\<in>D. d dvd n)"
    and b: "\<forall>d\<in>D. d dvd n \<longrightarrow> f \<or> (\<exists>k < length ws. d \<in> set (d_todo (ws ! k)))"
    and c: "\<forall>k < length ws. set (d_todo (ws ! k)) \<subseteq> D"
    using inv by (simp_all add: d_inv_def)
  have sub: "set (d_todo w') \<subseteq> set (d_todo (ws ! i))"
    unfolding w'_def by (rule d_step_todo_subset)
  have a': "f' \<longrightarrow> (\<exists>d\<in>D. d dvd n)"
  proof
    assume f': "f'"
    show "\<exists>d\<in>D. d dvd n"
    proof (cases f)
      case True
      then show ?thesis using a by simp
    next
      case False
      then obtain d where d: "d \<in> set (d_todo (ws ! i))" "n smod d = 0"
        using d_step_flag_set [of n "ws ! i" f] f' by (auto simp: f'_def)
      then have dD: "d \<in> D" using c i by blast
      then have "d dvd n" using d(2) n D by (simp add: smod_0_iff_dvd)
      with dD show ?thesis by blast
    qed
  qed
  have b': "\<forall>d\<in>D. d dvd n \<longrightarrow> f' \<or> (\<exists>k < length (ws[i := w']). d \<in> set (d_todo (ws[i := w'] ! k)))"
  proof (intro ballI impI)
    fix d assume dD: "d \<in> D" and dv: "d dvd n"
    show "f' \<or> (\<exists>k < length (ws[i := w']). d \<in> set (d_todo (ws[i := w'] ! k)))"
    proof (cases f')
      case True
      then show ?thesis by simp
    next
      case False
      then have "\<not> f" using d_step_flag_mono [of f n "ws ! i"] by (auto simp: f'_def)
      then obtain k where k: "k < length ws" "d \<in> set (d_todo (ws ! k))"
        using b dD dv by blast
      have "d \<in> set (d_todo (ws[i := w'] ! k))"
      proof (cases "k = i")
        case True
        have "n smod d = 0" using dv dD n D by (simp add: smod_0_iff_dvd)
        then have "d \<in> set (d_todo w')"
          using d_step_todo_dropped [of d "ws ! i" n f] k False True
          by (auto simp: w'_def f'_def)
        then show ?thesis using True i by simp
      next
        case False
        then show ?thesis using k by simp
      qed
      then show ?thesis using k(1) by auto
    qed
  qed
  have c': "\<forall>k < length (ws[i := w']). set (d_todo (ws[i := w'] ! k)) \<subseteq> D"
  proof (intro allI impI)
    fix k assume k: "k < length (ws[i := w'])"
    show "set (d_todo (ws[i := w'] ! k)) \<subseteq> D"
    proof (cases "k = i")
      case True
      then show ?thesis using sub c i by (auto simp: nth_list_update)
    next
      case False
      then show ?thesis using c k by simp
    qed
  qed
  from a' b' c' show ?thesis
    unfolding d_inv_def w'_def [symmetric] f'_def [symmetric] by simp
qed

lemma d_inv_run:
  assumes "0 \<le> n" "\<forall>d\<in>D. 0 < d" "d_inv n D st"
  shows "d_inv n D (run_threads (workerCheckDivRange_step n) sched st)"
  using assms(3)
proof (rule run_threads_invariant)
  fix ws f i assume "i < length ws" "d_inv n D (ws, f)"
  with assms(1,2) show "d_inv n D (ws[i := fst (workerCheckDivRange_step n (ws ! i) f)],
                    snd (workerCheckDivRange_step n (ws ! i) f))"
    by (rule d_inv_step)
qed

text \<open>When all workers have returned, the flag says whether a divisor was handed out
  that divides \<open>n\<close>: whatever the schedule.\<close>

lemma d_workers_verdict:
  assumes n: "0 \<le> n" and D: "\<forall>w\<in>set ws. \<forall>d\<in>set (d_todo w). 0 < d"
    and run: "run_threads (workerCheckDivRange_step n) sched (ws, False) = (ws', f)"
    and fin: "list_all d_returned ws'"
  shows "f \<longleftrightarrow> (\<exists>w\<in>set ws. \<exists>d\<in>set (d_todo w). d dvd n)"
proof -
  define D' where "D' = (\<Union>w\<in>set ws. set (d_todo w))"
  have pos: "\<forall>d\<in>D'. 0 < d" using D by (auto simp: D'_def)
  have i2: "\<forall>d\<in>D'. d dvd n \<longrightarrow> (\<exists>k < length ws. d \<in> set (d_todo (ws ! k)))"
    unfolding D'_def by (metis UN_E in_set_conv_nth)
  have i3: "\<forall>k < length ws. set (d_todo (ws ! k)) \<subseteq> D'"
    unfolding D'_def using nth_mem by blast
  have "d_inv n D' (ws, False)"
    unfolding d_inv_def using i2 i3 by simp
  then have "d_inv n D' (run_threads (workerCheckDivRange_step n) sched (ws, False))"
    by (rule d_inv_run [OF n pos])
  then have inv: "d_inv n D' (ws', f)" by (simp add: run)
  have none: "\<not> (\<exists>k < length ws'. d \<in> set (d_todo (ws' ! k)))" for d
    using fin by (auto simp: list_all_length d_returned_todo)
  have "f \<longleftrightarrow> (\<exists>d\<in>D'. d dvd n)"
    using inv none unfolding d_inv_def by auto
  then show ?thesis by (auto simp: D'_def)
qed

lemma isPrimeByDivisorThreads_small:
  assumes "n < 2 \<or> n = 2 \<or> (2 < n \<and> even n)"
  shows "isPrimeByDivisorThreads n W sched = Some (Inr (isPrimeSingleThread n))"
proof -
  consider "n < 2" | "n = 2" | "2 < n" "even n" using assms by blast
  then show ?thesis
  proof cases
    case 1
    then show ?thesis by (simp add: isPrimeByDivisorThreads_def isPrimeSingleThread_def)
  next
    case 2
    then show ?thesis by (simp add: isPrimeByDivisorThreads_def isPrimeSingleThread_def)
  next
    case 3
    then have "n smod 2 = n mod 2" by (simp add: smod_pos)
    then have "n smod 2 = 0" using 3(2) by simp
    then show ?thesis using 3(1) by (simp add: isPrimeByDivisorThreads_def isPrimeSingleThread_def)
  qed
qed

lemma isPrimeByDivisorThreads_low_limit:
  assumes "2 < n" "odd n" "n \<le> LONG_MAX" "floor_sqrt n \<le> 2"
  shows "isPrimeByDivisorThreads n W sched = Some (Inr (isPrimeSingleThread n))"
proof -
  have "n smod 2 = n mod 2" using assms(1) by (simp add: smod_pos)
  then have nz: "n smod 2 \<noteq> 0" using assms(2) by (simp add: odd_iff_mod_2_eq_one)
  have lim: "sqrt_limit n = floor_sqrt n" using assms by (intro sqrt_limit_exact) auto
  have "isPrimeSingleThread n"
    using isPrimeSingleThread_odd [OF assms(1,2,3)] assms(4) by auto
  then show ?thesis using assms(1,4) nz lim by (simp add: isPrimeByDivisorThreads_def)
qed

text \<open>With at least one worker and a limit of at least 3, the function creates its
  workers and its result is the negated flag once all of them have returned.\<close>

lemma isPrimeByDivisorThreads_run:
  assumes "2 < n" "odd n" "n \<le> LONG_MAX" "3 \<le> floor_sqrt n" "1 \<le> W"
  shows "\<exists>ws. partition_divisors (divisors_loop (floor_sqrt n) 3 []) W = Inr ws \<and>
           (\<forall>w\<in>set ws. \<forall>d\<in>set (d_todo w). 3 \<le> d \<and> d \<le> floor_sqrt n) \<and>
           (\<forall>d. 3 \<le> d \<and> d \<le> floor_sqrt n \<and> odd d \<longrightarrow> (\<exists>w\<in>set ws. d \<in> set (d_todo w))) \<and>
           (\<forall>sched. isPrimeByDivisorThreads n W sched =
              (let (ws', compositeFound) = run_threads (workerCheckDivRange_step n) sched (ws, False)
               in if list_all d_returned ws' then Some (Inr (\<not> compositeFound)) else None))"
proof -
  have "n smod 2 = n mod 2" using assms(1) by (simp add: smod_pos)
  then have nz: "n smod 2 \<noteq> 0" using assms(2) by (simp add: odd_iff_mod_2_eq_one)
  have lim: "sqrt_limit n = floor_sqrt n" using assms by (intro sqrt_limit_exact) auto
  have ne: "divisors_loop (floor_sqrt n) 3 [] \<noteq> []" using assms(4) by (rule divisors_loop_3(2))
  obtain ws where p: "partition_divisors (divisors_loop (floor_sqrt n) 3 []) W = Inr ws"
    and b: "\<forall>w\<in>set ws. \<forall>d\<in>set (d_todo w). 3 \<le> d \<and> d \<le> floor_sqrt n"
    and c: "\<forall>d. 3 \<le> d \<and> d \<le> floor_sqrt n \<and> odd d \<longrightarrow>
              (\<exists>!k. k < length ws \<and> d \<in> set (d_todo (ws ! k)))"
    using partition_divisors_cover [OF assms(5,4)] by blast
  have c': "\<forall>d. 3 \<le> d \<and> d \<le> floor_sqrt n \<and> odd d \<longrightarrow> (\<exists>w\<in>set ws. d \<in> set (d_todo w))"
  proof (intro allI impI)
    fix d assume "3 \<le> d \<and> d \<le> floor_sqrt n \<and> odd d"
    with c obtain k where "k < length ws" "d \<in> set (d_todo (ws ! k))" by blast
    then show "\<exists>w\<in>set ws. d \<in> set (d_todo w)" using nth_mem by blast
  qed
  have r: "\<forall>sched. isPrimeByDivisorThreads n W sched =
              (let (ws', compositeFound) = run_threads (workerCheckDivRange_step n) sched (ws, False)
               in if list_all d_returned ws' then Some (Inr (\<not> compositeFound)) else None)"
    using assms(1,4) nz ne unfolding isPrimeByDivisorThreads_def lim Let_def p by simp
  from p b c' r show ?thesis by blast
qed

lemma isPrimeByDivisorThreads_verdict:
  assumes n: "n \<le> LONG_MAX" and W: "1 \<le> W"
  shows "isPrimeByDivisorThreads n W sched = None \<or>
         isPrimeByDivisorThreads n W sched = Some (Inr (isPrimeSingleThread n))"
    and "\<exists>more. isPrimeByDivisorThreads n W (sched @ more) = Some (Inr (isPrimeSingleThread n))"
proof -
  consider "n < 2 \<or> n = 2 \<or> (2 < n \<and> even n)" | "2 < n" "odd n" "floor_sqrt n \<le> 2"
    | "2 < n" "odd n" "3 \<le> floor_sqrt n" by linarith
  then have "(isPrimeByDivisorThreads n W sched = None \<or>
         isPrimeByDivisorThreads n W sched = Some (Inr (isPrimeSingleThread n))) \<and>
         (\<exists>more. isPrimeByDivisorThreads n W (sched @ more) = Some (Inr (isPrimeSingleThread n)))"
  proof cases
    case 1
    then show ?thesis using isPrimeByDivisorThreads_small by blast
  next
    case 2
    then show ?thesis using isPrimeByDivisorThreads_low_limit [OF 2(1,2) n 2(3)] by blast
  next
    case 3
    obtain ws where b: "\<forall>w\<in>set ws. \<forall>d\<in>set (d_todo w). 3 \<le> d \<and> d \<le> floor_sqrt n"
      and c: "\<forall>d. 3 \<le> d \<and> d \<le> floor_sqrt n \<and> odd d \<longrightarrow> (\<exists>w\<in>set ws. d \<in> set (d_todo w))"
      and r: "\<And>sched. isPrimeByDivisorThreads n W sched =
              (let (ws', compositeFound) = run_threads (workerCheckDivRange_step n) sched (ws, False)
               in if list_all d_returned ws' then Some (Inr (\<not> compositeFound)) else None)"
      using isPrimeByDivisorThreads_run [OF 3(1,2) n 3(3) W] by blast
    have n0: "0 \<le> n" using 3(1) by simp
    have pos: "\<forall>w\<in>set ws. \<forall>d\<in>set (d_todo w). 0 < d" using b by fastforce
    have div: "(\<exists>w\<in>set ws. \<exists>d\<in>set (d_todo w). d dvd n) \<longleftrightarrow>
               (\<exists>k. 3 \<le> k \<and> k \<le> floor_sqrt n \<and> odd k \<and> k dvd n)"
    proof
      assume "\<exists>w\<in>set ws. \<exists>d\<in>set (d_todo w). d dvd n"
      then obtain w d where wd: "w \<in> set ws" "d \<in> set (d_todo w)" "d dvd n" by blast
      have "odd d"
      proof
        assume "even d"
        then have "2 dvd n" using wd(3) by (rule dvd_trans)
        with 3(2) show False by simp
      qed
      with b wd show "\<exists>k. 3 \<le> k \<and> k \<le> floor_sqrt n \<and> odd k \<and> k dvd n" by blast
    next
      assume "\<exists>k. 3 \<le> k \<and> k \<le> floor_sqrt n \<and> odd k \<and> k dvd n"
      with c show "\<exists>w\<in>set ws. \<exists>d\<in>set (d_todo w). d dvd n" by blast
    qed
    have verdict: "\<not> f \<longleftrightarrow> isPrimeSingleThread n"
      if "run_threads (workerCheckDivRange_step n) s (ws, False) = (ws', f)"
        "list_all d_returned ws'" for s ws' f
      using d_workers_verdict [OF n0 pos that] div isPrimeSingleThread_odd [OF 3(1,2) n] by blast
    have first: "isPrimeByDivisorThreads n W s = None \<or>
         isPrimeByDivisorThreads n W s = Some (Inr (isPrimeSingleThread n))" for s
    proof -
      obtain ws' f where run: "run_threads (workerCheckDivRange_step n) s (ws, False) = (ws', f)"
        by (cases "run_threads (workerCheckDivRange_step n) s (ws, False)")
      show ?thesis
      proof (cases "list_all d_returned ws'")
        case True
        then show ?thesis using verdict [OF run True] by (simp add: r run)
      next
        case False
        then show ?thesis by (simp add: r run)
      qed
    qed
    have second: "\<exists>more. isPrimeByDivisorThreads n W (sched @ more) = Some (Inr (isPrimeSingleThread n))"
    proof -
      obtain ws1 f1 where run1: "run_threads (workerCheckDivRange_step n) sched (ws, False) = (ws1, f1)"
        by (cases "run_threads (workerCheckDivRange_step n) sched (ws, False)")
      obtain more where m: "\<forall>w\<in>set (fst (run_threads (workerCheckDivRange_step n) more (ws1, f1))). d_fuel w = 0"
        using run_threads_complete [of d_fuel "workerCheckDivRange_step n" ws1 f1] d_step_fuel
        by blast
      obtain ws2 f2 where run2: "run_threads (workerCheckDivRange_step n) more (ws1, f1) = (ws2, f2)"
        by (cases "run_threads (workerCheckDivRange_step n) more (ws1, f1)")
      have all: "list_all d_returned ws2" using m by (simp add: run2 list_all_iff d_fuel_0)
      have run: "run_threads (workerCheckDivRange_step n) (sched @ more) (ws, False) = (ws2, f2)"
        by (simp add: run_threads_append run1 run2)
      have "isPrimeByDivisorThreads n W (sched @ more) = Some (Inr (isPrimeSingleThread n))"
        using verdict [OF run all] all by (simp add: r run)
      then show ?thesis by blast
    qed
    from first second show ?thesis by blast
  qed
  then show "isPrimeByDivisorThreads n W sched = None \<or>
         isPrimeByDivisorThreads n W sched = Some (Inr (isPrimeSingleThread n))"
    and "\<exists>more. isPrimeByDivisorThreads n W (sched @ more) = Some (Inr (isPrimeSingleThread n))"
    by blast+
qed

lemma partition_divisors_count:
  assumes W: "1 \<le> W" and lim: "3 \<le> limit"
    and p: "partition_divisors (divisors_loop limit 3 []) W = Inr ws"
  shows "length ws \<le> nat W" and "\<forall>w\<in>set ws. d_fuel w \<le> 2 * nat limit"
proof -
  define tot where "tot = int (length (divisors_loop limit 3 []))"
  define W1 where "W1 = (if tot div W = 0 then 1 else W)"
  have "\<exists>ws'. partition_divisors (divisors_loop limit 3 []) W = Inr ws' \<and> length ws' = nat W1"
    using partition_divisors_workers [OF W lim] unfolding tot_def W1_def by blast
  then have "length ws = nat W1" using p by auto
  moreover have "W1 \<le> W" using W by (simp add: W1_def)
  ultimately show "length ws \<le> nat W" by simp
  from partition_divisors_cover [OF W lim] p
  have a: "\<forall>w\<in>set ws. \<exists>d. ip w = AtCheck d"
    and b: "\<forall>w\<in>set ws. \<forall>d\<in>set (d_todo w). 3 \<le> d \<and> d \<le> limit"
    by auto
  show "\<forall>w\<in>set ws. d_fuel w \<le> 2 * nat limit"
  proof
    fix w assume w: "w \<in> set ws"
    then obtain d where "ip w = AtCheck d" using a by blast
    moreover have "\<forall>x\<in>set (d_todo w). 3 \<le> x \<and> x \<le> limit" using b w by blast
    ultimately show "d_fuel w \<le> 2 * nat limit" using lim by (rule d_fuel_bound)
  qed
qed

text \<open>Under a fair schedule the call returns.\<close>

lemma isPrimeByDivisorThreads_fair:
  assumes n: "n \<le> LONG_MAX" and W: "1 \<le> W"
    and fair: "fair_schedule (nat W) (2 * nat (floor_sqrt n)) sched"
  shows "isPrimeByDivisorThreads n W sched = Some (Inr (isPrimeSingleThread n))"
proof -
  consider "n < 2 \<or> n = 2 \<or> (2 < n \<and> even n)" | "2 < n" "odd n" "floor_sqrt n \<le> 2"
    | "2 < n" "odd n" "3 \<le> floor_sqrt n" by linarith
  then show ?thesis
  proof cases
    case 1
    then show ?thesis by (rule isPrimeByDivisorThreads_small)
  next
    case 2
    then show ?thesis using isPrimeByDivisorThreads_low_limit [OF 2(1,2) n 2(3)] by blast
  next
    case 3
    obtain ws where p: "partition_divisors (divisors_loop (floor_sqrt n) 3 []) W = Inr ws"
      and r: "\<And>sched. isPrimeByDivisorThreads n W sched =
              (let (ws', compositeFound) = run_threads (workerCheckDivRange_step n) sched (ws, False)
               in if list_all d_returned ws' then Some (Inr (\<not> compositeFound)) else None)"
      using isPrimeByDivisorThreads_run [OF 3(1,2) n 3(3) W] by blast
    note c = partition_divisors_count [OF W 3(3) p]
    have turns: "\<forall>i < length ws. d_fuel (ws ! i) \<le> count_list sched i"
    proof (intro allI impI)
      fix i assume i: "i < length ws"
      then have "d_fuel (ws ! i) \<le> 2 * nat (floor_sqrt n)" using c(2) by simp
      moreover have "i < nat W" using i c(1) by simp
      then have "2 * nat (floor_sqrt n) \<le> count_list sched i"
        using fair by (simp add: fair_schedule_def)
      ultimately show "d_fuel (ws ! i) \<le> count_list sched i" by simp
    qed
    obtain ws' f where run: "run_threads (workerCheckDivRange_step n) sched (ws, False) = (ws', f)"
      by (cases "run_threads (workerCheckDivRange_step n) sched (ws, False)")
    have "\<forall>w\<in>set (fst (run_threads (workerCheckDivRange_step n) sched (ws, False))). d_fuel w = 0"
      using d_step_fuel_dec turns by (rule run_threads_fair)
    then have "list_all d_returned ws'" by (simp add: run list_all_iff d_fuel_0)
    then have "isPrimeByDivisorThreads n W sched \<noteq> None" by (simp add: r run)
    moreover have "isPrimeByDivisorThreads n W sched = None \<or>
         isPrimeByDivisorThreads n W sched = Some (Inr (isPrimeSingleThread n))"
      using n W by (rule isPrimeByDivisorThreads_verdict(1))
    ultimately show ?thesis by (elim disjE) simp_all
  qed
qed

text \<open>
  Claim C2. For every candidate \<open>n\<close> and every worker budget \<open>W\<close> from 1 up to
  \<open>floor (sqrt n)\<close>, \<open>isPrimeByDivisorThreads n W\<close> returns the verdict of
  \<open>isPrimeSingleThread n\<close>. Whatever the schedule of the workers, the call, once the
  workers are joined, returns that verdict and nothing else. It does return: under every
  schedule that gives each worker \<open>2 * floor (sqrt n)\<close> turns, and from every point of
  every schedule the workers can be run until it returns.
\<close>

theorem isPrimeByDivisorThreads_refines_oracle:
  assumes "is_long n" and "1 \<le> W" and "W \<le> \<lfloor>sqrt (real_of_int n)\<rfloor>"
  shows "(\<forall>sched r. isPrimeByDivisorThreads n W sched = Some r \<longrightarrow> r = Inr (isPrimeSingleThread n)) \<and>
         (\<forall>sched. fair_schedule (nat W) (2 * nat \<lfloor>sqrt (real_of_int n)\<rfloor>) sched \<longrightarrow>
              isPrimeByDivisorThreads n W sched = Some (Inr (isPrimeSingleThread n))) \<and>
         (\<forall>sched. \<exists>more. isPrimeByDivisorThreads n W (sched @ more) = Some (Inr (isPrimeSingleThread n)))"
proof -
  have n: "n \<le> LONG_MAX" using assms(1) by (simp add: is_long_def)
  have n0: "0 \<le> n"
  proof (rule ccontr)
    assume "\<not> 0 \<le> n"
    then have "sqrt (real_of_int n) \<le> 0" by simp
    then have "\<lfloor>sqrt (real_of_int n)\<rfloor> \<le> 0" by (simp add: floor_le_zero)
    with assms(2,3) show False by simp
  qed
  have fs: "\<lfloor>sqrt (real_of_int n)\<rfloor> = floor_sqrt n" using n0 by (simp add: floor_sqrt_real)
  have "\<forall>sched r. isPrimeByDivisorThreads n W sched = Some r \<longrightarrow> r = Inr (isPrimeSingleThread n)"
    using isPrimeByDivisorThreads_verdict(1) [OF n assms(2)] by (metis option.distinct(1) option.inject)
  moreover have "\<forall>sched. fair_schedule (nat W) (2 * nat \<lfloor>sqrt (real_of_int n)\<rfloor>) sched \<longrightarrow>
              isPrimeByDivisorThreads n W sched = Some (Inr (isPrimeSingleThread n))"
    unfolding fs using isPrimeByDivisorThreads_fair [OF n assms(2)] by blast
  moreover have "\<forall>sched. \<exists>more. isPrimeByDivisorThreads n W (sched @ more) = Some (Inr (isPrimeSingleThread n))"
    using isPrimeByDivisorThreads_verdict(2) [OF n assms(2)] by blast
  ultimately show ?thesis by blast
qed

theorem isPrimeByDivisorThreads_refines_oracle_witness:
  "is_long 25 \<and> (1::int) \<le> 2 \<and> 2 \<le> \<lfloor>sqrt (real_of_int 25)\<rfloor> \<and>
   isPrimeByDivisorThreads 25 2 [1, 1, 0] = Some (Inr False) \<and>
   fair_schedule (nat 2) (2 * nat \<lfloor>sqrt (real_of_int 25)\<rfloor>)
     [0, 1, 0, 1, 0, 1, 0, 1, 0, 1, 0, 1, 0, 1, 0, 1, 0, 1, 0, 1] \<and>
   isPrimeByDivisorThreads 25 2 [0, 1, 0, 1, 0, 1, 0, 1, 0, 1, 0, 1, 0, 1, 0, 1, 0, 1, 0, 1] =
     Some (Inr False) \<and>
   isPrimeSingleThread 25 = False"
proof -
  have l: "is_long 25" by (simp add: is_long_simps)
  have w: "(1::int) \<le> 2" by simp
  have "floor_sqrt 25 = 5" by code_simp
  then have fl: "\<lfloor>sqrt (real_of_int 25)\<rfloor> = 5" using floor_sqrt_real [of 25] by simp
  then have s: "2 \<le> \<lfloor>sqrt (real_of_int 25)\<rfloor>" by simp
  have e: "isPrimeByDivisorThreads 25 2 [1, 1, 0] = Some (Inr False)" by code_simp
  have "\<forall>i < Suc (Suc 0). 10 \<le> count_list [0, 1, 0, 1, 0, 1, 0, 1, 0, 1, 0, 1, 0, 1, 0, 1, 0, 1, 0, 1] i"
    by (simp add: less_Suc_eq)
  then have f: "fair_schedule (nat 2) (2 * nat \<lfloor>sqrt (real_of_int 25)\<rfloor>)
     [0, 1, 0, 1, 0, 1, 0, 1, 0, 1, 0, 1, 0, 1, 0, 1, 0, 1, 0, 1]"
    unfolding fl fair_schedule_def by (simp add: numeral_2_eq_2)
  note t = isPrimeByDivisorThreads_refines_oracle [OF l w s]
  have "Inr False = (Inr (isPrimeSingleThread 25) :: failure + bool)"
    using t e by blast
  then have p: "isPrimeSingleThread 25 = False" by simp
  have "isPrimeByDivisorThreads 25 2 [0, 1, 0, 1, 0, 1, 0, 1, 0, 1, 0, 1, 0, 1, 0, 1, 0, 1, 0, 1] =
     Some (Inr (isPrimeSingleThread 25))"
    using t f by blast
  with l w s e f p show ?thesis by simp
qed

lemma d_flag_run_mono:
  "snd st \<Longrightarrow> snd (run_threads (workerCheckDivRange_step n) sched st)"
proof (rule run_threads_invariant [where P = snd])
  fix ws :: "d_worker list" and f i
  assume "snd (ws, f)"
  then show "snd (ws[i := fst (workerCheckDivRange_step n (ws ! i) f)],
                  snd (workerCheckDivRange_step n (ws ! i) f))"
    by (simp add: d_step_flag_mono)
qed

text \<open>
  Claim C7. Within the run of the workers of one candidate, the flag is monotonic: once
  it is set at some point of an execution it is set at every later point. No worker
  divides by a candidate divisor \<open>d\<close> without having checked the flag at \<open>d\<close> and found it
  clear; and a worker that checks the flag and finds it set returns at once, leaving the
  flag as it is and the rest of its range untried.
\<close>

theorem compositeFlag_monotonic:
  "(\<forall>n sched more ws f.
       snd (run_threads (workerCheckDivRange_step n) sched (ws, f)) \<longrightarrow>
       snd (run_threads (workerCheckDivRange_step n) (sched @ more) (ws, f))) \<and>
   (\<forall>n w f. f \<longrightarrow> snd (workerCheckDivRange_step n w f)) \<and>
   (\<forall>n w f d. ip (fst (workerCheckDivRange_step n w f)) = AtTest d \<longrightarrow>
       ip w = AtCheck d \<and> d \<le> endDiv w \<and> \<not> f) \<and>
   (\<forall>n w f d. ip w = AtCheck d \<and> f \<longrightarrow>
       workerCheckDivRange_step n w f = (w\<lparr>ip := Returned\<rparr>, f))"
proof -
  have 1: "\<forall>n sched more ws f.
       snd (run_threads (workerCheckDivRange_step n) sched (ws, f)) \<longrightarrow>
       snd (run_threads (workerCheckDivRange_step n) (sched @ more) (ws, f))"
    by (simp add: run_threads_append d_flag_run_mono)
  have 2: "\<forall>n w f. f \<longrightarrow> snd (workerCheckDivRange_step n w f)"
    by (simp add: d_step_flag_mono)
  have 3: "ip w = AtCheck d \<and> d \<le> endDiv w \<and> \<not> f"
    if "ip (fst (workerCheckDivRange_step n w f)) = AtTest d" for n w f d
    using that by (cases "ip w") (auto simp: workerCheckDivRange_step_def split: if_splits)
  have 4: "workerCheckDivRange_step n w f = (w\<lparr>ip := Returned\<rparr>, f)"
    if "ip w = AtCheck d \<and> f" for n w f d
    using that by (simp add: workerCheckDivRange_step_def)
  from 1 2 3 4 show ?thesis by blast
qed

theorem compositeFlag_monotonic_witness:
  "snd (run_threads (workerCheckDivRange_step 225) [0, 0]
          ([\<lparr>ip = AtCheck 3, endDiv = 7\<rparr>, \<lparr>ip = AtCheck 9, endDiv = 15\<rparr>], False)) \<and>
   run_threads (workerCheckDivRange_step 225) ([0, 0] @ [1])
          ([\<lparr>ip = AtCheck 3, endDiv = 7\<rparr>, \<lparr>ip = AtCheck 9, endDiv = 15\<rparr>], False) =
     ([\<lparr>ip = Returned, endDiv = 7\<rparr>, \<lparr>ip = Returned, endDiv = 15\<rparr>], True) \<and>
   workerCheckDivRange_step 225 \<lparr>ip = AtCheck 9, endDiv = 15\<rparr> True =
     (\<lparr>ip = Returned, endDiv = 15\<rparr>, True)"
proof -
  have a: "snd (run_threads (workerCheckDivRange_step 225) [0, 0]
          ([\<lparr>ip = AtCheck 3, endDiv = 7\<rparr>, \<lparr>ip = AtCheck 9, endDiv = 15\<rparr>], False))"
    by code_simp
  have b: "snd (run_threads (workerCheckDivRange_step 225) ([0, 0] @ [1])
          ([\<lparr>ip = AtCheck 3, endDiv = 7\<rparr>, \<lparr>ip = AtCheck 9, endDiv = 15\<rparr>], False))"
    using compositeFlag_monotonic a by blast
  have c: "fst (run_threads (workerCheckDivRange_step 225) ([0, 0] @ [1])
          ([\<lparr>ip = AtCheck 3, endDiv = 7\<rparr>, \<lparr>ip = AtCheck 9, endDiv = 15\<rparr>], False)) =
          [\<lparr>ip = Returned, endDiv = 7\<rparr>, \<lparr>ip = Returned, endDiv = 15\<rparr>]"
    by code_simp
  have "ip \<lparr>ip = AtCheck 9, endDiv = 15\<rparr> = AtCheck 9 \<and> True" by simp
  then have d: "workerCheckDivRange_step 225 \<lparr>ip = AtCheck 9, endDiv = 15\<rparr> True =
     (\<lparr>ip = AtCheck 9, endDiv = 15\<rparr>\<lparr>ip := Returned\<rparr>, True)"
    using compositeFlag_monotonic by blast
  from a b c d show ?thesis by (simp add: prod_eq_iff)
qed

section \<open>Scheme B: the loop over the candidates\<close>

lemma upto_filter_rec: "n \<le> N \<Longrightarrow> filter P [n..N] = (if P n then [n] else []) @ filter P [n + 1..N]"
  by (simp add: upto_rec1)

lemma runSchemeB_loop_result:
  assumes "N < LONG_MAX"
    and "\<forall>m. n \<le> m \<and> m \<le> N \<longrightarrow>
             isPrimeByDivisorThreads m W (scheds m) = None \<or>
             isPrimeByDivisorThreads m W (scheds m) = Some (Inr (P m))"
    and "runSchemeB_loop N W p scheds n s = Some r"
  shows "\<exists>s'. r = Inr s' \<and>
           printed s' = printed s @ (if p then map FoundB (filter P [n..N]) else []) \<and>
           collected s' = collected s @ (if p then [] else filter P [n..N])"
  using assms
proof (induction N W p scheds n s rule: runSchemeB_loop.induct)
  case (1 N W p scheds n s)
  show ?case
  proof (cases "n \<le> N")
    case False
    then have "runSchemeB_loop N W p scheds n s = Some (Inr s)"
      by (subst runSchemeB_loop.simps) simp
    then show ?thesis using False "1.prems"(3) by simp
  next
    case True
    have nmax: "n \<noteq> LONG_MAX" using True "1.prems"(1) by simp
    have "isPrimeByDivisorThreads n W (scheds n) = None \<or>
          isPrimeByDivisorThreads n W (scheds n) = Some (Inr (P n))"
      using "1.prems"(2) True by simp
    moreover have "isPrimeByDivisorThreads n W (scheds n) \<noteq> None"
    proof
      assume "isPrimeByDivisorThreads n W (scheds n) = None"
      then have "runSchemeB_loop N W p scheds n s = None"
        using True by (subst runSchemeB_loop.simps) simp
      with "1.prems"(3) show False by simp
    qed
    ultimately have v: "isPrimeByDivisorThreads n W (scheds n) = Some (Inr (P n))" by simp
    define s1 where "s1 = (if P n then
                  (if p then s\<lparr>printed := printed s @ [FoundB n]\<rparr>
                   else s\<lparr>collected := collected s @ [n]\<rparr>)
                else s)"
    have step: "runSchemeB_loop N W p scheds n s = runSchemeB_loop N W p scheds (n + 1) s1"
      using True v nmax by (subst runSchemeB_loop.simps) (simp add: s1_def)
    have pre: "\<forall>m. n + 1 \<le> m \<and> m \<le> N \<longrightarrow>
             isPrimeByDivisorThreads m W (scheds m) = None \<or>
             isPrimeByDivisorThreads m W (scheds m) = Some (Inr (P m))"
      using "1.prems"(2) by simp
    have "runSchemeB_loop N W p scheds (n + 1) s1 = Some r" using "1.prems"(3) step by simp
    then have "\<exists>s'. r = Inr s' \<and>
           printed s' = printed s1 @ (if p then map FoundB (filter P [n + 1..N]) else []) \<and>
           collected s' = collected s1 @ (if p then [] else filter P [n + 1..N])"
      using "1.IH" [OF True v refl nmax "1.prems"(1) pre] by (simp add: s1_def)
    then show ?thesis
      by (auto simp: s1_def upto_filter_rec [OF True])
  qed
qed

lemma runSchemeB_loop_returns:
  assumes "N < LONG_MAX"
    and "\<forall>m. n \<le> m \<and> m \<le> N \<longrightarrow> (\<exists>b. isPrimeByDivisorThreads m W (scheds m) = Some (Inr b))"
  shows "\<exists>r. runSchemeB_loop N W p scheds n s = Some r"
  using assms
proof (induction N W p scheds n s rule: runSchemeB_loop.induct)
  case (1 N W p scheds n s)
  show ?case
  proof (cases "n \<le> N")
    case False
    then show ?thesis by (subst runSchemeB_loop.simps) simp
  next
    case True
    have nmax: "n \<noteq> LONG_MAX" using True "1.prems"(1) by simp
    obtain b where v: "isPrimeByDivisorThreads n W (scheds n) = Some (Inr b)"
      using True "1.prems"(2) by blast
    define s1 where "s1 = (if b then
                  (if p then s\<lparr>printed := printed s @ [FoundB n]\<rparr>
                   else s\<lparr>collected := collected s @ [n]\<rparr>)
                else s)"
    have step: "runSchemeB_loop N W p scheds n s = runSchemeB_loop N W p scheds (n + 1) s1"
      using True v nmax by (subst runSchemeB_loop.simps) (simp add: s1_def)
    have pre: "\<forall>m. n + 1 \<le> m \<and> m \<le> N \<longrightarrow> (\<exists>b. isPrimeByDivisorThreads m W (scheds m) = Some (Inr b))"
      using "1.prems"(2) by simp
    have "\<exists>r. runSchemeB_loop N W p scheds (n + 1) s1 = Some r"
      using "1.IH" [OF True v refl nmax "1.prems"(1) pre] by (simp add: s1_def)
    then show ?thesis by (simp add: step)
  qed
qed

text \<open>With \<open>maxNumber = LONG_MAX\<close> the loop does not end normally: \<open>n <= maxNumber\<close> holds
  of every \<open>long\<close>, and \<open>++n\<close> overflows at the last candidate.\<close>

lemma runSchemeB_loop_overflow:
  assumes "N = LONG_MAX" and "n \<le> N" and "runSchemeB_loop N W p scheds n s = Some r"
  shows "\<exists>f. r = Inl f"
  using assms
proof (induction N W p scheds n s rule: runSchemeB_loop.induct)
  case (1 N W p scheds n s)
  note unf = runSchemeB_loop.simps [of N W p scheds n s]
  show ?case
  proof (cases "isPrimeByDivisorThreads n W (scheds n)")
    case None
    then show ?thesis using "1.prems"(2,3) unf by simp
  next
    case (Some v)
    show ?thesis
    proof (cases v)
      case (Inl f)
      then show ?thesis using "1.prems"(2,3) unf Some by auto
    next
      case (Inr b)
      show ?thesis
      proof (cases "n = LONG_MAX")
        case True
        then show ?thesis using "1.prems"(2,3) unf Some Inr by auto
      next
        case False
        define s1 where "s1 = (if b then
                  (if p then s\<lparr>printed := printed s @ [FoundB n]\<rparr>
                   else s\<lparr>collected := collected s @ [n]\<rparr>)
                else s)"
        have "runSchemeB_loop N W p scheds n s = runSchemeB_loop N W p scheds (n + 1) s1"
          using "1.prems"(2) Some Inr False by (subst unf) (simp add: s1_def)
        then have run: "runSchemeB_loop N W p scheds (n + 1) s1 = Some r"
          using "1.prems"(3) by simp
        have "n + 1 \<le> N" using "1.prems"(1,2) False by simp
        from "1.IH" [OF "1.prems"(2) Some Inr False "1.prems"(1) this run [unfolded s1_def]]
        show ?thesis .
      qed
    qed
  qed
qed

lemma runSchemeB_result:
  assumes "1 \<le> W" "N < LONG_MAX" "runSchemeB N W p scheds empty_sink = Some r"
  shows "\<exists>s'. r = Inr s' \<and>
           printed s' = (if p then map FoundB (filter isPrimeSingleThread [2..N]) else []) \<and>
           collected s' = (if p then [] else filter isPrimeSingleThread [2..N])"
proof -
  have "\<forall>m. 2 \<le> m \<and> m \<le> N \<longrightarrow>
             isPrimeByDivisorThreads m W (scheds m) = None \<or>
             isPrimeByDivisorThreads m W (scheds m) = Some (Inr (isPrimeSingleThread m))"
    using isPrimeByDivisorThreads_verdict(1) [OF _ assms(1)] assms(2) by simp
  from runSchemeB_loop_result [OF assms(2) this assms(3) [unfolded runSchemeB_def]]
  show ?thesis by (simp add: empty_sink_def)
qed

lemma runSchemeB_returns:
  assumes "1 \<le> W" "N < LONG_MAX"
  shows "\<exists>scheds r. runSchemeB N W p scheds empty_sink = Some r"
proof -
  have "\<exists>more. m \<le> N \<longrightarrow> isPrimeByDivisorThreads m W more = Some (Inr (isPrimeSingleThread m))" for m
  proof (cases "m \<le> N")
    case True
    then have "m \<le> LONG_MAX" using assms(2) by simp
    then show ?thesis using isPrimeByDivisorThreads_verdict(2) [OF _ assms(1), of m "[]"] by auto
  next
    case False
    then show ?thesis by simp
  qed
  then have "\<forall>m. \<exists>more. m \<le> N \<longrightarrow> isPrimeByDivisorThreads m W more = Some (Inr (isPrimeSingleThread m))"
    by blast
  then have "\<exists>scheds. \<forall>m. m \<le> N \<longrightarrow> isPrimeByDivisorThreads m W (scheds m) = Some (Inr (isPrimeSingleThread m))"
    by (rule choice)
  then obtain scheds where
    "\<forall>m. m \<le> N \<longrightarrow> isPrimeByDivisorThreads m W (scheds m) = Some (Inr (isPrimeSingleThread m))"
    by blast
  then have "\<forall>m. 2 \<le> m \<and> m \<le> N \<longrightarrow> (\<exists>b. isPrimeByDivisorThreads m W (scheds m) = Some (Inr b))"
    by blast
  then have "\<exists>r. runSchemeB_loop N W p scheds 2 empty_sink = Some r"
    by (rule runSchemeB_loop_returns [OF assms(2)])
  then show ?thesis unfolding runSchemeB_def by blast
qed

lemma runSchemeB_fair:
  assumes W: "1 \<le> W" and N63: "N < LONG_MAX"
    and fair: "\<forall>m. 2 \<le> m \<and> m \<le> N \<longrightarrow> fair_schedule (nat W) (2 * nat (floor_sqrt m)) (scheds m)"
  shows "\<exists>r. runSchemeB N W p scheds empty_sink = Some r"
proof -
  have "\<forall>m. 2 \<le> m \<and> m \<le> N \<longrightarrow> (\<exists>b. isPrimeByDivisorThreads m W (scheds m) = Some (Inr b))"
  proof (intro allI impI)
    fix m assume m: "2 \<le> m \<and> m \<le> N"
    then have "m \<le> LONG_MAX" using N63 by simp
    then have "isPrimeByDivisorThreads m W (scheds m) = Some (Inr (isPrimeSingleThread m))"
      using W fair m by (intro isPrimeByDivisorThreads_fair) auto
    then show "\<exists>b. isPrimeByDivisorThreads m W (scheds m) = Some (Inr b)" by blast
  qed
  then have "\<exists>r. runSchemeB_loop N W p scheds 2 empty_sink = Some r"
    by (rule runSchemeB_loop_returns [OF N63])
  then show ?thesis by (simp add: runSchemeB_def)
qed

section \<open>The whole run\<close>

text \<open>With an accepted configuration and an accepted entry at the prompt, \<open>main\<close> is the
  run for that worker count, bound and choice.\<close>

lemma main_accepted:
  assumes "readConfig file = Inr (W, N)" and "find (\<lambda>c. 1 \<le> c \<and> c \<le> 4) inputs = Some choice"
  shows "main file inputs schedA schedsB = main_run W N choice schedA schedsB"
    and "choice = 1 \<or> choice = 2 \<or> choice = 3 \<or> choice = 4"
proof -
  show "main file inputs schedA schedsB = main_run W N choice schedA schedsB"
    using assms by (simp add: main_def)
  have "1 \<le> choice \<and> choice \<le> 4" using assms(2) by (auto simp: find_Some_iff)
  then show "choice = 1 \<or> choice = 2 \<or> choice = 3 \<or> choice = 4" by auto
qed

lemma reference_primes_eq:
  assumes "N \<le> LONG_MAX"
  shows "reference_primes N = filter isPrimeSingleThread [1..N]"
  unfolding reference_primes_def
proof (rule filter_cong [OF refl])
  fix n assume "n \<in> set [1..N]"
  then have "n \<le> LONG_MAX" using assms by simp
  then show "reference_is_prime n = isPrimeSingleThread n"
    by (simp add: isPrimeSingleThread_is_prime reference_is_prime_iff)
qed

lemma reference_primes_sorted_distinct: "sorted (reference_primes N) \<and> distinct (reference_primes N)"
  by (simp add: reference_primes_def sorted_wrt_filter)

lemma reference_primes_from_2:
  assumes "N \<le> LONG_MAX"
  shows "filter isPrimeSingleThread [2..N] = reference_primes N"
proof (cases "1 \<le> N")
  case True
  then have "[1..N] = 1 # [2..N]" by (simp add: upto_rec1)
  moreover have "\<not> isPrimeSingleThread 1" by (simp add: isPrimeSingleThread_def)
  ultimately show ?thesis by (simp add: reference_primes_eq [OF assms])
next
  case False
  then show ?thesis by (simp add: reference_primes_eq [OF assms])
qed

lemma reported_lines: "reported (map Found ls) = map line_value ls"
proof (induction ls)
  case Nil
  show ?case by (simp add: reported_def)
next
  case (Cons l ls)
  then show ?case by (cases l) (simp_all add: reported_def)
qed

lemma reported_report:
  "reported (report p s) = map line_value (printed s) @ (if p then [] else sort (collected s))"
proof -
  have "reported (xs @ ys) = reported xs @ reported ys" for xs ys
    by (simp add: reported_def)
  then show ?thesis
    by (simp add: report_def reported_lines) (simp add: reported_def)
qed

text \<open>Scheme A: whatever the schedule, once the workers are joined the sink holds the
  primes of \<open>[1, N]\<close>, each once.\<close>

lemma schemeA_run_result:
  assumes W: "1 \<le> W" and N: "1 < N" and N63: "N \<le> LONG_MAX"
    and run: "run_threads (workerRangeSchemeA_step p) sched
                (schemeA_spawn N W (N sdiv W) 0 1 [], empty_sink) = (ws, s)"
    and fin: "list_all a_finished ws"
  shows "(p \<longrightarrow> collected s = [] \<and> mset (map line_value (printed s)) = mset (reference_primes N)) \<and>
         (\<not> p \<longrightarrow> printed s = [] \<and> mset (collected s) = mset (reference_primes N))"
proof -
  define ws0 where "ws0 = schemeA_spawn N W (N sdiv W) 0 1 []"
  have blocks: "concat (map a_block ws0) = [1..N]"
    unfolding ws0_def using W N by (rule schemeA_spawn_main(3))
  have "a_total (ws, s) = a_total (ws0, empty_sink)"
    using a_total_run [of p sched "(ws0, empty_sink)"] run by (simp add: ws0_def)
  also have "\<dots> = mset (filter isPrimeSingleThread [1..N])"
    by (simp add: a_total_def empty_sink_def concat_map_a_pending blocks)
  also have "\<dots> = mset (reference_primes N)" by (simp add: reference_primes_eq [OF N63])
  finally have tot: "a_total (ws, s) = mset (reference_primes N)" .
  have e: "concat (map a_pending ws) = []" using fin by (rule a_all_finished_pending)
  have "a_total (ws, s) = mset (map line_value (printed s)) + mset (collected s) +
          mset (concat (map a_pending ws))"
    unfolding a_total_def fst_conv snd_conv ..
  also have "\<dots> = mset (map line_value (printed s)) + mset (collected s)"
    unfolding e by simp
  finally have sum: "mset (map line_value (printed s)) + mset (collected s) = mset (reference_primes N)"
    using tot by simp
  have m0: "printed (snd (ws0, empty_sink)) = []" "collected (snd (ws0, empty_sink)) = []"
    by (simp_all add: empty_sink_def)
  have mode: "(p \<longrightarrow> collected s = []) \<and> (\<not> p \<longrightarrow> printed s = [])"
    by (rule a_mode_run [OF m0, of p sched, unfolded ws0_def run snd_conv])
  show ?thesis using sum mode by auto
qed

lemma sort_mset_reference:
  assumes "mset xs = mset (reference_primes N)"
  shows "sort xs = reference_primes N"
  using assms reference_primes_sorted_distinct by (intro properties_for_sort) simp_all

text \<open>The counters of the workers of Scheme A never leave the range of the assignments,
  so below \<open>LONG_MAX\<close> nothing overflows, neither in the spawning loop nor in a worker.\<close>

lemma a_counters_run:
  assumes "\<forall>w\<in>set (fst st). endNum w \<le> N \<and> cur w \<le> N + 1"
  shows "\<forall>w\<in>set (fst (run_threads (workerRangeSchemeA_step p) sched st)).
           endNum w \<le> N \<and> cur w \<le> N + 1"
proof (rule run_threads_invariant
    [where P = "\<lambda>x. \<forall>w\<in>set (fst x). endNum w \<le> N \<and> cur w \<le> N + 1"])
  show "\<forall>w\<in>set (fst st). endNum w \<le> N \<and> cur w \<le> N + 1" by (rule assms)
next
  fix ws :: "a_worker list" and s :: sink and i
  assume i: "i < length ws" and inv: "\<forall>w\<in>set (fst (ws, s)). endNum w \<le> N \<and> cur w \<le> N + 1"
  define w' where "w' = fst (workerRangeSchemeA_step p (ws ! i) s)"
  have "ws ! i \<in> set ws" using i by simp
  then have "endNum (ws ! i) \<le> N \<and> cur (ws ! i) \<le> N + 1" using inv by simp
  then have w': "endNum w' \<le> N \<and> cur w' \<le> N + 1"
    by (auto simp: w'_def workerRangeSchemeA_step_def)
  have sub: "set (ws[i := w']) \<subseteq> insert w' (set ws)" by (rule set_update_subset_insert)
  show "\<forall>w\<in>set (fst (ws[i := fst (workerRangeSchemeA_step p (ws ! i) s)],
                          snd (workerRangeSchemeA_step p (ws ! i) s))).
          endNum w \<le> N \<and> cur w \<le> N + 1"
  proof
    fix w
    assume "w \<in> set (fst (ws[i := fst (workerRangeSchemeA_step p (ws ! i) s)],
                          snd (workerRangeSchemeA_step p (ws ! i) s)))"
    then have "w \<in> set (ws[i := w'])" by (simp add: w'_def)
    then have "w = w' \<or> w \<in> set ws" using sub by auto
    then show "endNum w \<le> N \<and> cur w \<le> N + 1" using inv w' by auto
  qed
qed

lemma schemeA_no_overflow:
  assumes W: "1 \<le> W" and N: "1 < N" and N63: "N < LONG_MAX"
    and run: "run_threads (workerRangeSchemeA_step p) sched
                (schemeA_spawn N W (N sdiv W) 0 1 [], empty_sink) = (ws, s)"
  shows "\<not> list_ex (\<lambda>w. LONG_MAX < endNum w + 1) (schemeA_spawn N W (N sdiv W) 0 1 [])"
    and "\<not> list_ex a_overflowed ws"
proof -
  let ?ws0 = "schemeA_spawn N W (N sdiv W) 0 1 []"
  have len: "length ?ws0 = nat W" using W N by (rule schemeA_spawn_main(1))
  have b0: "\<forall>w\<in>set ?ws0. endNum w \<le> N \<and> cur w \<le> N + 1"
  proof
    fix w assume "w \<in> set ?ws0"
    then obtain k where k: "k < length ?ws0" "w = ?ws0 ! k" by (auto simp: in_set_conv_nth)
    then have "k < nat W" by (simp add: len)
    then show "endNum w \<le> N \<and> cur w \<le> N + 1"
      using schemeA_spawn_bounds(2,4) [OF W N, of k] k(2) by simp
  qed
  show "\<not> list_ex (\<lambda>w. LONG_MAX < endNum w + 1) ?ws0"
    using b0 N63 by (auto simp: list_ex_iff)
  have "\<forall>w\<in>set (fst (run_threads (workerRangeSchemeA_step p) sched (?ws0, empty_sink))).
           endNum w \<le> N \<and> cur w \<le> N + 1"
    using b0 by (intro a_counters_run) simp
  then have "\<forall>w\<in>set ws. endNum w \<le> N \<and> cur w \<le> N + 1" by (simp add: run)
  then show "\<not> list_ex a_overflowed ws"
    using N63 by (auto simp: list_ex_iff a_overflowed_def)
qed

text \<open>A worker count above \<open>max_size()\<close> ends every run at the reservation, and the
  bound \<open>LONG_MAX\<close> ends every run that goes that far in an overflow.\<close>

lemma main_run_length_error:
  assumes "max_size < W"
  shows "main_run W N choice schedA schedsB = Some (Inl LengthError)"
  using assms by (simp add: main_run_def)

lemma main_run_overflow:
  assumes W: "1 \<le> W" and N: "1 < N" and N63: "N = LONG_MAX"
    and ch: "choice = 1 \<or> choice = 2 \<or> choice = 3 \<or> choice = 4"
    and run: "main_run W N choice schedA schedsB = Some r"
  shows "\<exists>f. r = Inl f"
proof (cases "max_size < W")
  case True
  then have "main_run W N choice schedA schedsB = Some (Inl LengthError)"
    by (rule main_run_length_error)
  then have "r = Inl LengthError" using run by simp
  then show ?thesis by blast
next
  case Wm: False
  show ?thesis
  proof (cases "choice = 1 \<or> choice = 2")
    case True
    let ?ws0 = "schemeA_spawn N W (N sdiv W) 0 1 []"
    define k where "k = nat W - 1"
    have k: "k < nat W" "int k = W - 1" using W by (simp_all add: k_def)
    have "length ?ws0 = nat W" using W N by (rule schemeA_spawn_main(1))
    then have mem: "?ws0 ! k \<in> set ?ws0" using k(1) by simp
    have "endNum (?ws0 ! k) = N"
      using schemeA_spawn_main(2) [OF W N k(1)] k(2) by simp
    then have "LONG_MAX < endNum (?ws0 ! k) + 1" by (simp only: N63)
    then have "\<exists>w\<in>set ?ws0. LONG_MAX < endNum w + 1" using mem by blast
    then have "list_ex (\<lambda>w. LONG_MAX < endNum w + 1) ?ws0"
      by (simp only: list_ex_iff)
    then have "main_run W N choice schedA schedsB = Some (Inl SignedOverflow)"
      using True W Wm unfolding main_run_def Let_def by simp
    then show ?thesis using run by simp
  next
    case False
    then have c34: "choice = 3 \<or> choice = 4" using ch by blast
    define p where "p = (choice = 3)"
    have pi: "(choice = 1 \<or> choice = 3) = p" using False by (auto simp: p_def)
    have mr: "main_run W N choice schedA schedsB =
              (case runSchemeB N W p schedsB empty_sink of
                 None \<Rightarrow> None
               | Some (Inl f) \<Rightarrow> Some (Inl f)
               | Some (Inr s) \<Rightarrow> Some (Inr (0, report p s)))"
      using False c34 W Wm unfolding main_run_def Let_def pi by simp
    obtain rb where rb: "runSchemeB N W p schedsB empty_sink = Some rb"
      using run mr by (cases "runSchemeB N W p schedsB empty_sink") auto
    have "2 \<le> N" using N by simp
    then obtain f where "rb = Inl f"
      using runSchemeB_loop_overflow [OF N63 _ rb [unfolded runSchemeB_def]] by blast
    then have "r = Inl f" using run mr rb by simp
    then show ?thesis by blast
  qed
qed

text \<open>What a completed run writes: in the deferred modes the primes of the reference
  in ascending order, in the immediate modes one line for each of them.\<close>

lemma main_run_result:
  assumes W: "1 \<le> W" and Wm: "W \<le> max_size" and N: "1 < N" and N63: "N < LONG_MAX"
    and ch: "choice = 1 \<or> choice = 2 \<or> choice = 3 \<or> choice = 4"
    and run: "main_run W N choice schedA schedsB = Some r"
  shows "\<exists>out. r = Inr (0, out) \<and> mset (reported out) = mset (reference_primes N) \<and>
           (choice = 2 \<or> choice = 4 \<longrightarrow> out = [PrimesFound (reference_primes N)]) \<and>
           (choice = 1 \<or> choice = 3 \<longrightarrow> (\<exists>ls. out = map Found ls))"
proof (cases "choice = 1 \<or> choice = 2")
  case True
  define p where "p = (choice = 1)"
  obtain ws s where rt: "run_threads (workerRangeSchemeA_step p) schedA
                (schemeA_spawn N W (N sdiv W) 0 1 [], empty_sink) = (ws, s)"
    by (cases "run_threads (workerRangeSchemeA_step p) schedA
                (schemeA_spawn N W (N sdiv W) 0 1 [], empty_sink)")
  have pi: "(choice = 1 \<or> choice = 3) = p" using True by (auto simp: p_def)
  note nov = schemeA_no_overflow [OF W N N63 rt]
  have N63': "N \<le> LONG_MAX" using N63 by simp
  have mr: "main_run W N choice schedA schedsB =
              (if list_all a_finished ws then Some (Inr (0, report p s)) else None)"
    using True W Wm nov unfolding main_run_def Let_def pi by (simp add: rt)
  have fin: "list_all a_finished ws" using run mr by (auto split: if_splits)
  have r: "r = Inr (0, report p s)" using run mr fin by simp
  note res = schemeA_run_result [OF W N N63' rt fin]
  show ?thesis
  proof (cases p)
    case True
    then have "report p s = map Found (printed s)" by (simp add: report_def)
    moreover have "mset (reported (report p s)) = mset (reference_primes N)"
      using res True by (simp add: reported_report)
    ultimately show ?thesis using r True \<open>choice = 1 \<or> choice = 2\<close> by (auto simp: p_def)
  next
    case False
    then have c: "printed s = []" "mset (collected s) = mset (reference_primes N)"
      using res by simp_all
    then have "sort (collected s) = reference_primes N" by (intro sort_mset_reference)
    then have "report p s = [PrimesFound (reference_primes N)]"
      using False c by (simp add: report_def)
    then show ?thesis using r False \<open>choice = 1 \<or> choice = 2\<close>
      by (auto simp: p_def reported_def)
  qed
next
  case False
  then have c34: "choice = 3 \<or> choice = 4" using ch by blast
  define p where "p = (choice = 3)"
  have pi: "(choice = 1 \<or> choice = 3) = p" using False by (auto simp: p_def)
  have mr: "main_run W N choice schedA schedsB =
              (case runSchemeB N W p schedsB empty_sink of
                 None \<Rightarrow> None
               | Some (Inl f) \<Rightarrow> Some (Inl f)
               | Some (Inr s) \<Rightarrow> Some (Inr (0, report p s)))"
    using False c34 W Wm unfolding main_run_def Let_def pi by simp
  obtain rb where rb: "runSchemeB N W p schedsB empty_sink = Some rb"
    using run mr by (cases "runSchemeB N W p schedsB empty_sink") auto
  obtain s where s: "rb = Inr s"
    "printed s = (if p then map FoundB (filter isPrimeSingleThread [2..N]) else [])"
    "collected s = (if p then [] else filter isPrimeSingleThread [2..N])"
    using runSchemeB_result [OF W N63 rb] by blast
  have r: "r = Inr (0, report p s)" using run mr rb s(1) by simp
  have N63': "N \<le> LONG_MAX" using N63 by simp
  have f2: "filter isPrimeSingleThread [2..N] = reference_primes N"
    using N63' by (rule reference_primes_from_2)
  show ?thesis
  proof (cases p)
    case True
    have "map line_value (map FoundB xs) = xs" for xs by (induction xs) simp_all
    then have "mset (reported (report p s)) = mset (reference_primes N)"
      using True s(2,3) f2 by (simp add: reported_report)
    moreover have "report p s = map Found (printed s)" using True by (simp add: report_def)
    ultimately show ?thesis using r True c34 by (auto simp: p_def)
  next
    case False
    have "sort (reference_primes N) = reference_primes N"
      using reference_primes_sorted_distinct by (simp add: sort_key_id_if_sorted)
    then have "report p s = [PrimesFound (reference_primes N)]"
      using False s(2,3) f2 by (simp add: report_def)
    then show ?thesis using r False c34 by (auto simp: p_def reported_def)
  qed
qed

lemma main_run_returns:
  assumes W: "1 \<le> W" and Wm: "W \<le> max_size" and N: "1 < N" and N63: "N < LONG_MAX"
    and ch: "choice = 1 \<or> choice = 2 \<or> choice = 3 \<or> choice = 4"
  shows "\<exists>schedA schedsB r. main_run W N choice schedA schedsB = Some r"
proof (cases "choice = 1 \<or> choice = 2")
  case True
  define p where "p = (choice = 1)"
  have pi: "(choice = 1 \<or> choice = 3) = p" using True by (auto simp: p_def)
  obtain sched where fz: "\<forall>w\<in>set (fst (run_threads (workerRangeSchemeA_step p) sched
                (schemeA_spawn N W (N sdiv W) 0 1 [], empty_sink))). a_fuel w = 0"
    using run_threads_complete [of a_fuel "workerRangeSchemeA_step p"] a_step_fuel by blast
  obtain ws s where rt: "run_threads (workerRangeSchemeA_step p) sched
                (schemeA_spawn N W (N sdiv W) 0 1 [], empty_sink) = (ws, s)"
    by (cases "run_threads (workerRangeSchemeA_step p) sched
                (schemeA_spawn N W (N sdiv W) 0 1 [], empty_sink)")
  have fin: "list_all a_finished ws" using fz by (simp add: rt list_all_iff a_fuel_0)
  note nov = schemeA_no_overflow [OF W N N63 rt]
  have "main_run W N choice sched (\<lambda>_. []) = Some (Inr (0, report p s))"
    using True W Wm fin nov unfolding main_run_def Let_def pi by (simp add: rt)
  then show ?thesis by blast
next
  case False
  then have c34: "choice = 3 \<or> choice = 4" using ch by blast
  define p where "p = (choice = 3)"
  have pi: "(choice = 1 \<or> choice = 3) = p" using False by (auto simp: p_def)
  obtain scheds rb where rb: "runSchemeB N W p scheds empty_sink = Some rb"
    using runSchemeB_returns [OF W N63] by blast
  have "main_run W N choice [] scheds \<noteq> None"
    using False c34 W Wm rb unfolding main_run_def Let_def pi by (auto split: sum.splits)
  then show ?thesis by blast
qed

lemma main_run_fair:
  assumes W: "1 \<le> W" and Wm: "W \<le> max_size" and N: "1 < N" and N63: "N < LONG_MAX"
    and ch: "choice = 1 \<or> choice = 2 \<or> choice = 3 \<or> choice = 4"
    and fairA: "choice = 1 \<or> choice = 2 \<longrightarrow> fair_schedule (nat W) (nat N) schedA"
    and fairB: "choice = 3 \<or> choice = 4 \<longrightarrow>
                 (\<forall>m. 2 \<le> m \<and> m \<le> N \<longrightarrow> fair_schedule (nat W) (2 * nat (floor_sqrt m)) (schedsB m))"
  shows "\<exists>r. main_run W N choice schedA schedsB = Some r"
proof (cases "choice = 1 \<or> choice = 2")
  case True
  define p where "p = (choice = 1)"
  have pi: "(choice = 1 \<or> choice = 3) = p" using True by (auto simp: p_def)
  define ws0 where "ws0 = schemeA_spawn N W (N sdiv W) 0 1 []"
  have len: "length ws0 = nat W" unfolding ws0_def using W N by (rule schemeA_spawn_main(1))
  have turns: "\<forall>i < length ws0. a_fuel (ws0 ! i) \<le> count_list schedA i"
  proof (intro allI impI)
    fix i assume "i < length ws0"
    then have i: "i < nat W" by (simp add: len)
    then have "a_fuel (ws0 ! i) \<le> nat N" unfolding ws0_def using W N by (intro schemeA_spawn_bounds(5))
    moreover have "nat N \<le> count_list schedA i"
      using fairA True i by (simp add: fair_schedule_def)
    ultimately show "a_fuel (ws0 ! i) \<le> count_list schedA i" by simp
  qed
  obtain ws s where rt: "run_threads (workerRangeSchemeA_step p) schedA (ws0, empty_sink) = (ws, s)"
    by (cases "run_threads (workerRangeSchemeA_step p) schedA (ws0, empty_sink)")
  have "\<forall>w\<in>set (fst (run_threads (workerRangeSchemeA_step p) schedA (ws0, empty_sink))). a_fuel w = 0"
    using a_step_fuel_dec turns by (rule run_threads_fair)
  then have fin: "list_all a_finished ws" by (simp add: rt list_all_iff a_fuel_0)
  note nov = schemeA_no_overflow [OF W N N63 rt [unfolded ws0_def]]
  have "main_run W N choice schedA schedsB = Some (Inr (0, report p s))"
    using True W Wm fin nov rt unfolding main_run_def Let_def pi ws0_def by simp
  then show ?thesis by blast
next
  case False
  then have c34: "choice = 3 \<or> choice = 4" using ch by blast
  define p where "p = (choice = 3)"
  have pi: "(choice = 1 \<or> choice = 3) = p" using False by (auto simp: p_def)
  obtain rb where rb: "runSchemeB N W p schedsB empty_sink = Some rb"
    using runSchemeB_fair [OF W N63] fairB c34 by blast
  have "main_run W N choice schedA schedsB \<noteq> None"
    using False c34 W Wm rb unfolding main_run_def Let_def pi by (auto split: sum.splits)
  then show ?thesis by blast
qed

text \<open>
  Claim C1, as the code has it. For every \<open>N\<close> with \<open>2 \<le> N < LONG_MAX\<close> and every worker
  count \<open>W\<close> with \<open>1 \<le> W \<le> max_size()\<close>, which is \<open>2^60 - 1\<close>, under either scheme and
  either sink mode (the four choices of \<open>main\<close>), the primes the program reports are
  those of the independent trial-division reference on \<open>[1, N]\<close>: none twice, none
  missing. This holds of every completed run, whatever the schedule of the threads; and
  the run completes under every schedule that gives each worker of Scheme A \<open>N\<close> turns,
  respectively each worker of a candidate \<open>m\<close> of Scheme B \<open>2 * floor (sqrt m)\<close> turns.
\<close>

theorem reported_primes_exact:
  assumes "2 \<le> N" and "N < LONG_MAX" and "1 \<le> W" and "W \<le> max_size"
    and "choice = 1 \<or> choice = 2 \<or> choice = 3 \<or> choice = 4"
  shows "(\<forall>schedA schedsB r. main_run W N choice schedA schedsB = Some r \<longrightarrow>
            (\<exists>out. r = Inr (0, out) \<and> distinct (reported out) \<and>
                   set (reported out) = set (reference_primes N))) \<and>
         (\<forall>schedA schedsB.
            (choice = 1 \<or> choice = 2 \<longrightarrow> fair_schedule (nat W) (nat N) schedA) \<and>
            (choice = 3 \<or> choice = 4 \<longrightarrow>
               (\<forall>m. 2 \<le> m \<and> m \<le> N \<longrightarrow>
                    fair_schedule (nat W) (2 * nat \<lfloor>sqrt (real_of_int m)\<rfloor>) (schedsB m))) \<longrightarrow>
            (\<exists>r. main_run W N choice schedA schedsB = Some r))"
proof -
  have N1: "1 < N" using assms(1) by simp
  have "\<exists>out. r = Inr (0, out) \<and> distinct (reported out) \<and>
                   set (reported out) = set (reference_primes N)"
    if run: "main_run W N choice schedA schedsB = Some r" for schedA schedsB r
  proof -
    obtain out where o: "r = Inr (0, out)" "mset (reported out) = mset (reference_primes N)"
      using main_run_result [OF assms(3,4) N1 assms(2,5) run] by blast
    have "distinct (reported out)"
      using o(2) reference_primes_sorted_distinct [of N] by (metis mset_eq_imp_distinct_iff)
    moreover have "set (reported out) = set (reference_primes N)"
      using o(2) by (rule mset_eq_setD)
    ultimately show ?thesis using o(1) by blast
  qed
  moreover have "\<exists>r. main_run W N choice schedA schedsB = Some r"
    if fair: "(choice = 1 \<or> choice = 2 \<longrightarrow> fair_schedule (nat W) (nat N) schedA) \<and>
            (choice = 3 \<or> choice = 4 \<longrightarrow>
               (\<forall>m. 2 \<le> m \<and> m \<le> N \<longrightarrow>
                    fair_schedule (nat W) (2 * nat \<lfloor>sqrt (real_of_int m)\<rfloor>) (schedsB m)))"
    for schedA schedsB
  proof -
    have "\<lfloor>sqrt (real_of_int m)\<rfloor> = floor_sqrt m" if "2 \<le> m" for m
      using that by (simp add: floor_sqrt_real)
    then have "choice = 3 \<or> choice = 4 \<longrightarrow>
               (\<forall>m. 2 \<le> m \<and> m \<le> N \<longrightarrow> fair_schedule (nat W) (2 * nat (floor_sqrt m)) (schedsB m))"
      using fair by simp
    moreover have "choice = 1 \<or> choice = 2 \<longrightarrow> fair_schedule (nat W) (nat N) schedA"
      using fair by blast
    ultimately show ?thesis
      using main_run_fair [OF assms(3,4) N1 assms(2,5)] by blast
  qed
  ultimately show ?thesis by blast
qed

theorem reported_primes_exact_witness:
  "(2::int) \<le> 10 \<and> 10 < LONG_MAX \<and> (1::int) \<le> 2 \<and> 2 \<le> max_size \<and>
   fair_schedule (nat 2) (nat 10) [1, 0, 1, 0, 1, 0, 1, 0, 1, 0, 1, 0, 1, 0, 1, 0, 1, 0, 1, 0] \<and>
   main_run 2 10 1 [1, 0, 1, 0, 1, 0, 1, 0, 1, 0, 1, 0, 1, 0, 1, 0, 1, 0, 1, 0] no_schedules =
     Some (Inr (0, [Found (FoundA 1 7), Found (FoundA 0 2), Found (FoundA 0 3), Found (FoundA 0 5)])) \<and>
   distinct [7, 2, 3, 5 :: int] \<and> set [7, 2, 3, 5] = set (reference_primes 10) \<and>
   main_run 2 10 4 [] (\<lambda>n. [0, 0]) = Some (Inr (0, [PrimesFound [2, 3, 5, 7]]))"
proof -
  have h: "(2::int) \<le> 10" "10 < LONG_MAX" "(1::int) \<le> 2" "2 \<le> max_size"
    by (simp_all add: LONG_MAX_def max_size_def)
  have c1: "(1::int) = 1 \<or> (1::int) = 2 \<or> (1::int) = 3 \<or> (1::int) = 4" by simp
  have "\<forall>i < Suc (Suc 0). 10 \<le> count_list [1, 0, 1, 0, 1, 0, 1, 0, 1, 0, 1, 0, 1, 0, 1, 0, 1, 0, 1, 0] i"
    by (simp add: less_Suc_eq)
  then have f: "fair_schedule (nat 2) (nat 10) [1, 0, 1, 0, 1, 0, 1, 0, 1, 0, 1, 0, 1, 0, 1, 0, 1, 0, 1, 0]"
    unfolding fair_schedule_def by (simp add: numeral_2_eq_2)
  note t = reported_primes_exact [OF h c1]
  have a: "main_run 2 10 1 [1, 0, 1, 0, 1, 0, 1, 0, 1, 0, 1, 0, 1, 0, 1, 0, 1, 0, 1, 0] no_schedules =
     Some (Inr (0, [Found (FoundA 1 7), Found (FoundA 0 2), Found (FoundA 0 3), Found (FoundA 0 5)]))"
    by code_simp
  have b: "main_run 2 10 4 [] (\<lambda>n. [0, 0]) = Some (Inr (0, [PrimesFound [2, 3, 5, 7]]))"
    by code_simp
  have c: "reported [Found (FoundA 1 7), Found (FoundA 0 2), Found (FoundA 0 3), Found (FoundA 0 5)] =
           [7, 2, 3, 5]"
    by (simp add: reported_def)
  have "\<exists>out. Inr (0, [Found (FoundA 1 7), Found (FoundA 0 2), Found (FoundA 0 3), Found (FoundA 0 5)]) =
             (Inr (0, out) :: failure + int \<times> event list) \<and>
             distinct (reported out) \<and> set (reported out) = set (reference_primes 10)"
    using t a by blast
  then have "distinct [7, 2, 3, 5 :: int] \<and> set [7, 2, 3, 5] = set (reference_primes 10)"
    using c by auto
  with h f a b show ?thesis by simp
qed

text \<open>Claim C1 as stated fails: a worker count of \<open>2^62\<close> is accepted by \<open>readConfig\<close>, and
  the run then ends at \<open>threadsA.reserve\<close> with \<open>std::length_error\<close>, in Scheme B as in
  Scheme A, having reported none of the primes up to 10.\<close>

theorem worker_count_above_max_size:
  "readConfig (Some [''threads=4611686018427387904'', ''maxNumber=10'']) =
     Inr (4611686018427387904, 10) \<and>
   main (Some [''threads=4611686018427387904'', ''maxNumber=10'']) [4] [] no_schedules =
     Some (Inl LengthError) \<and>
   main_run 4611686018427387904 10 1 [] no_schedules = Some (Inl LengthError) \<and>
   reference_primes 10 = [2, 3, 5, 7]"
proof -
  have a: "readConfig (Some [''threads=4611686018427387904'', ''maxNumber=10'']) =
     Inr (4611686018427387904, 10)"
    by (simp add: readConfig_def starts_with_def stol_def isspace_def isdigit_def
        digit_value_def decimal_def is_long_simps)
  have b: "main_run 4611686018427387904 10 4 [] no_schedules = Some (Inl LengthError)"
    by (simp add: main_run_def max_size_def LONG_MAX_def)
  have c: "main_run 4611686018427387904 10 1 [] no_schedules = Some (Inl LengthError)"
    by (simp add: main_run_def max_size_def LONG_MAX_def)
  have d: "main (Some [''threads=4611686018427387904'', ''maxNumber=10'']) [4] [] no_schedules =
     Some (Inl LengthError)"
    by (simp add: main_def a b)
  have e: "reference_primes 10 = [2, 3, 5, 7]" by code_simp
  from a c d e show ?thesis by blast
qed

text \<open>
  Claim C6. In deferred mode (choice 2 for Scheme A, 4 for Scheme B) the list written
  at the end of a run is sorted ascending and has no duplicates, and its elements are
  exactly the primes that any run in immediate mode (choice 1, respectively 3) prints
  for the same scheme, \<open>N\<close> and \<open>W\<close>, both runs ending normally. This holds for every
  \<open>N \<ge> 2\<close> and \<open>W \<ge> 1\<close> that a \<open>long\<close> holds: a run that ends at the reservation or in an
  overflow writes no list. With \<open>W \<le> max_size()\<close> and \<open>N < LONG_MAX\<close>, runs of both modes
  end normally under some schedule.
\<close>

theorem deferred_output_sorted:
  assumes "2 \<le> N" and "N \<le> LONG_MAX" and "1 \<le> W"
    and "(immediate = 1 \<and> deferred = 2) \<or> (immediate = 3 \<and> deferred = 4)"
  shows "(\<forall>schedA schedsB st out. main_run W N deferred schedA schedsB = Some (Inr (st, out)) \<longrightarrow>
            st = 0 \<and>
            (\<exists>ps. out = [PrimesFound ps] \<and> sorted ps \<and> distinct ps \<and>
               (\<forall>schedA' schedsB' st' out'.
                   main_run W N immediate schedA' schedsB' = Some (Inr (st', out')) \<longrightarrow>
                   st' = 0 \<and> set ps = set (reported out')))) \<and>
         (W \<le> max_size \<and> N < LONG_MAX \<longrightarrow>
            (\<exists>schedA schedsB out. main_run W N deferred schedA schedsB = Some (Inr (0, out))) \<and>
            (\<exists>schedA schedsB out. main_run W N immediate schedA schedsB = Some (Inr (0, out))))"
proof -
  have N1: "1 < N" using assms(1) by simp
  have cd: "deferred = 1 \<or> deferred = 2 \<or> deferred = 3 \<or> deferred = 4"
    and ci: "immediate = 1 \<or> immediate = 2 \<or> immediate = 3 \<or> immediate = 4"
    and d24: "deferred = 2 \<or> deferred = 4" and i13: "immediate = 1 \<or> immediate = 3"
    using assms(4) by auto
  have bounds: "W \<le> max_size \<and> N < LONG_MAX"
    if c: "c = 1 \<or> c = 2 \<or> c = 3 \<or> c = 4"
      and run: "main_run W N c schedA schedsB = Some (Inr (st, out))"
    for c schedA schedsB st out
  proof -
    have "W \<le> max_size"
    proof (rule ccontr)
      assume "\<not> W \<le> max_size"
      then have "main_run W N c schedA schedsB = Some (Inl LengthError)"
        by (intro main_run_length_error) simp
      then show False using run by simp
    qed
    moreover have "N \<noteq> LONG_MAX"
    proof
      assume "N = LONG_MAX"
      then have "\<exists>f. Inr (st, out) = (Inl f :: failure + int \<times> event list)"
        using main_run_overflow [OF assms(3) N1 _ c run] by blast
      then show False by simp
    qed
    ultimately show ?thesis using assms(2) by simp
  qed
  have imm: "st' = 0 \<and> set (reference_primes N) = set (reported out')"
    if run: "main_run W N immediate schedA' schedsB' = Some (Inr (st', out'))"
    for schedA' schedsB' st' out'
  proof -
    have b: "W \<le> max_size" "N < LONG_MAX" using bounds [OF ci run] by simp_all
    obtain out where o: "Inr (st', out') = (Inr (0, out) :: failure + int \<times> event list)"
      "mset (reported out) = mset (reference_primes N)"
      using main_run_result [OF assms(3) b(1) N1 b(2) ci run] by blast
    have "set (reported out) = set (reference_primes N)" using o(2) by (rule mset_eq_setD)
    then show ?thesis using o(1) by simp
  qed
  have "st = 0 \<and>
            (\<exists>ps. out = [PrimesFound ps] \<and> sorted ps \<and> distinct ps \<and>
               (\<forall>schedA' schedsB' st' out'.
                   main_run W N immediate schedA' schedsB' = Some (Inr (st', out')) \<longrightarrow>
                   st' = 0 \<and> set ps = set (reported out')))"
    if run: "main_run W N deferred schedA schedsB = Some (Inr (st, out))"
    for schedA schedsB st out
  proof -
    have b: "W \<le> max_size" "N < LONG_MAX" using bounds [OF cd run] by simp_all
    have "Inr (st, out) = (Inr (0, [PrimesFound (reference_primes N)]) :: failure + int \<times> event list)"
      using main_run_result [OF assms(3) b(1) N1 b(2) cd run] d24 by blast
    then have "st = 0" "out = [PrimesFound (reference_primes N)]" by simp_all
    then show ?thesis using reference_primes_sorted_distinct [of N] imm by blast
  qed
  moreover have "\<exists>schedA schedsB out. main_run W N c schedA schedsB = Some (Inr (0, out))"
    if b: "W \<le> max_size" "N < LONG_MAX" and c: "c = 1 \<or> c = 2 \<or> c = 3 \<or> c = 4" for c
  proof -
    obtain schedA schedsB r where run: "main_run W N c schedA schedsB = Some r"
      using main_run_returns [OF assms(3) b(1) N1 b(2) c] by blast
    then obtain out where "r = Inr (0, out)"
      using main_run_result [OF assms(3) b(1) N1 b(2) c run] by blast
    then show ?thesis using run by blast
  qed
  ultimately show ?thesis using cd ci by blast
qed

theorem deferred_output_sorted_witness:
  "(2::int) \<le> 10 \<and> 10 \<le> LONG_MAX \<and> (1::int) \<le> 2 \<and> 2 \<le> max_size \<and> 10 < LONG_MAX \<and>
   main_run 2 10 2 [1, 1, 1, 1, 1, 0, 0, 0, 0, 0] (\<lambda>n. []) = Some (Inr (0, [PrimesFound [2, 3, 5, 7]])) \<and>
   main_run 2 10 1 [1, 1, 1, 1, 1, 0, 0, 0, 0, 0] (\<lambda>n. []) =
     Some (Inr (0, [Found (FoundA 1 7), Found (FoundA 0 2), Found (FoundA 0 3), Found (FoundA 0 5)])) \<and>
   sorted [2, 3, 5, 7 :: int] \<and> distinct [2, 3, 5, 7 :: int] \<and>
   set [2, 3, 5, 7 :: int] = set [7, 2, 3, 5] \<and>
   (\<exists>schedA schedsB out. main_run 2 10 2 schedA schedsB = Some (Inr (0, out)))"
proof -
  have h: "(2::int) \<le> 10" "10 \<le> LONG_MAX" "(1::int) \<le> 2" by (simp_all add: LONG_MAX_def)
  have h': "2 \<le> max_size \<and> 10 < LONG_MAX" by (simp add: LONG_MAX_def max_size_def)
  have m: "((1::int) = 1 \<and> (2::int) = 2) \<or> ((1::int) = 3 \<and> (2::int) = 4)" by simp
  have a: "main_run 2 10 2 [1, 1, 1, 1, 1, 0, 0, 0, 0, 0] (\<lambda>n. []) =
             Some (Inr (0, [PrimesFound [2, 3, 5, 7]]))"
    by code_simp
  have b: "main_run 2 10 1 [1, 1, 1, 1, 1, 0, 0, 0, 0, 0] (\<lambda>n. []) =
     Some (Inr (0, [Found (FoundA 1 7), Found (FoundA 0 2), Found (FoundA 0 3), Found (FoundA 0 5)]))"
    by code_simp
  note t = deferred_output_sorted [OF h m]
  from t a
  obtain ps where ps: "[PrimesFound [2, 3, 5, 7]] = [PrimesFound ps]"
    "sorted ps" "distinct ps"
    "\<forall>schedA' schedsB' st' out'. main_run 2 10 1 schedA' schedsB' = Some (Inr (st', out')) \<longrightarrow>
        st' = 0 \<and> set ps = set (reported out')"
    by blast
  have eq: "ps = [2, 3, 5, 7]" using ps(1) by simp
  have "set ps = set (reported [Found (FoundA 1 7), Found (FoundA 0 2), Found (FoundA 0 3), Found (FoundA 0 5)])"
    using ps(4) b by blast
  then have s: "set ps = set [7, 2, 3, 5]" by (simp add: reported_def)
  have e: "\<exists>schedA schedsB out. main_run 2 10 2 schedA schedsB = Some (Inr (0, out))"
    using t h' by blast
  from s ps(2,3) eq h h' a b e show ?thesis by simp
qed

section \<open>The square-root limit at the boundaries\<close>

lemma floor_sqrt_square: "0 \<le> p \<Longrightarrow> floor_sqrt (p * p) = p"
proof (rule floor_sqrt_unique)
  assume p: "0 \<le> p"
  show "0 \<le> p" by (rule p)
  show "p * p \<le> p * p" by simp
  have "p * p < p * p + (2 * p + 1)" using p by simp
  also have "\<dots> = (p + 1) * (p + 1)" by (simp add: algebra_simps)
  finally show "p * p < (p + 1) * (p + 1)" .
qed

lemma prime_square_not_prime:
  assumes "is_prime p"
  shows "\<not> is_prime (p * p)"
proof -
  have p: "2 \<le> p" using assms by (simp add: is_prime_def)
  then have "p * 1 < p * p" by (intro mult_strict_left_mono) auto
  then have "1 < p \<and> p < p * p \<and> p dvd p * p" using p by simp
  then show ?thesis unfolding is_prime_def by blast
qed

text \<open>
  Claim C9. For every candidate \<open>n\<close> in range, the limit obtained by truncating the
  extended-precision square root is the true \<open>floor (sqrt n)\<close>, so it never
  under-counts. The square of a prime \<open>p\<close> has limit \<open>p\<close> and is found composite by both
  oracles; in particular 9 is (its limit is 3). 4 has limit 2, and both oracles reject
  it by the even-check, the divisor partitioner whatever the worker count, before the
  path on which a limit of at most 2 means prime.
\<close>

theorem sqrt_limit_never_undercounts:
  "(\<forall>n. 1 \<le> n \<and> n \<le> LONG_MAX \<longrightarrow> sqrt_limit n = \<lfloor>sqrt (real_of_int n)\<rfloor>) \<and>
   (\<forall>p. is_prime p \<and> p * p \<le> LONG_MAX \<longrightarrow>
        sqrt_limit (p * p) = p \<and> \<not> isPrimeSingleThread (p * p) \<and>
        (\<forall>W sched r. 1 \<le> W \<and> isPrimeByDivisorThreads (p * p) W sched = Some r \<longrightarrow> r = Inr False)) \<and>
   sqrt_limit 9 = 3 \<and> \<not> isPrimeSingleThread 9 \<and>
   (\<forall>W sched r. 1 \<le> W \<and> isPrimeByDivisorThreads 9 W sched = Some r \<longrightarrow> r = Inr False) \<and>
   sqrt_limit 4 = 2 \<and> 4 smod 2 = (0::int) \<and> \<not> isPrimeSingleThread 4 \<and>
   (\<forall>W sched. isPrimeByDivisorThreads 4 W sched = Some (Inr False))"
proof -
  have a: "\<forall>n. 1 \<le> n \<and> n \<le> LONG_MAX \<longrightarrow> sqrt_limit n = \<lfloor>sqrt (real_of_int n)\<rfloor>"
    by (simp add: sqrt_limit_exact floor_sqrt_real)
  have sq: "sqrt_limit (p * p) = p \<and> \<not> isPrimeSingleThread (p * p) \<and>
        (\<forall>W sched r. 1 \<le> W \<and> isPrimeByDivisorThreads (p * p) W sched = Some r \<longrightarrow> r = Inr False)"
    if p: "is_prime p" and le: "p * p \<le> LONG_MAX" for p
  proof -
    have p2: "2 \<le> p" using p by (simp add: is_prime_def)
    then have "1 * 1 \<le> p * p" by (intro mult_mono) auto
    then have "sqrt_limit (p * p) = floor_sqrt (p * p)" using le by (intro sqrt_limit_exact) auto
    then have l: "sqrt_limit (p * p) = p" using p2 by (simp add: floor_sqrt_square)
    have np: "\<not> isPrimeSingleThread (p * p)"
      using prime_square_not_prime [OF p] by (simp add: isPrimeSingleThread_is_prime [OF le])
    have "r = Inr False" if "1 \<le> W \<and> isPrimeByDivisorThreads (p * p) W sched = Some r" for W sched r
      using isPrimeByDivisorThreads_verdict(1) [OF le, of W sched] that np by auto
    with l np show ?thesis by blast
  qed
  have p3: "is_prime 3"
    unfolding is_prime_def
  proof (intro conjI allI impI)
    fix d :: int assume "1 < d \<and> d < 3"
    then have "d = 2" by simp
    then show "\<not> d dvd 3" by simp
  qed simp
  have "(3::int) * 3 \<le> LONG_MAX" by (simp add: LONG_MAX_def)
  then have nine: "sqrt_limit 9 = 3 \<and> \<not> isPrimeSingleThread 9 \<and>
        (\<forall>W sched r. 1 \<le> W \<and> isPrimeByDivisorThreads 9 W sched = Some r \<longrightarrow> r = Inr False)"
    using sq [OF p3] by simp
  have "sqrt_limit 4 = floor_sqrt (2 * 2)"
    by (simp add: sqrt_limit_exact LONG_MAX_def)
  then have four: "sqrt_limit 4 = 2" using floor_sqrt_square [of 2] by simp
  have m4: "4 smod 2 = (0::int)" by (simp add: smod_pos)
  have n4: "\<not> isPrimeSingleThread 4" using m4 by (simp add: isPrimeSingleThread_def)
  have d4: "\<forall>W sched. isPrimeByDivisorThreads 4 W sched = Some (Inr False)"
    using m4 by (simp add: isPrimeByDivisorThreads_def)
  from a sq nine four m4 n4 d4 show ?thesis by blast
qed

theorem sqrt_limit_never_undercounts_witness:
  "is_prime 5 \<and> (5::int) * 5 \<le> LONG_MAX \<and> sqrt_limit (5 * 5) = 5 \<and> \<not> isPrimeSingleThread (5 * 5) \<and>
   isPrimeByDivisorThreads (5 * 5) 2 [1, 1, 0] = Some (Inr False) \<and>
   sqrt_limit 4611686014132420609 = \<lfloor>sqrt (real_of_int 4611686014132420609)\<rfloor> \<and>
   sqrt_limit 4611686014132420609 = 2147483647"
proof -
  have p5: "is_prime 5"
    unfolding is_prime_def
  proof (intro conjI allI impI)
    fix d :: int assume "1 < d \<and> d < 5"
    then have "d = 2 \<or> d = 3 \<or> d = 4" by auto
    then show "\<not> d dvd 5" by auto
  qed simp
  have le: "(5::int) * 5 \<le> LONG_MAX" by (simp add: LONG_MAX_def)
  have e: "isPrimeByDivisorThreads (5 * 5) 2 [1, 1, 0] = Some (Inr False)" by code_simp
  have big: "1 \<le> (4611686014132420609::int) \<and> 4611686014132420609 \<le> LONG_MAX"
    by (simp add: LONG_MAX_def)
  have v: "sqrt_limit 4611686014132420609 = 2147483647" by code_simp
  from sqrt_limit_never_undercounts p5 le big
  have "sqrt_limit (5 * 5) = 5 \<and> \<not> isPrimeSingleThread (5 * 5) \<and>
        sqrt_limit 4611686014132420609 = \<lfloor>sqrt (real_of_int 4611686014132420609)\<rfloor>"
    by blast
  with p5 le e v show ?thesis by blast
qed

section \<open>Configuration errors\<close>

lemma starts_with_exclusive:
  "starts_with ''threads='' l \<Longrightarrow> \<not> starts_with ''maxNumber='' l"
  by (cases l) (auto simp: starts_with_def)

lemma readConfig_loop_ok:
  assumes "readConfig_loop ls c = Inr c'"
  shows "(threadsSet c' \<longleftrightarrow> threadsSet c \<or> (\<exists>l\<in>set ls. starts_with ''threads='' l)) \<and>
    (maxNumberSet c' \<longleftrightarrow> maxNumberSet c \<or> (\<exists>l\<in>set ls. starts_with ''maxNumber='' l)) \<and>
    (\<forall>l\<in>set ls. starts_with ''threads='' l \<longrightarrow> (\<exists>v. stol (drop 8 l) = Inr v \<and> 0 < v)) \<and>
    (\<forall>l\<in>set ls. starts_with ''maxNumber='' l \<longrightarrow> (\<exists>v. stol (drop 10 l) = Inr v \<and> 1 < v)) \<and>
    ((threadsSet c \<longrightarrow> 1 \<le> threads_value c) \<longrightarrow> (threadsSet c' \<longrightarrow> 1 \<le> threads_value c')) \<and>
    ((maxNumberSet c \<longrightarrow> 2 \<le> maxNumber_value c) \<longrightarrow> (maxNumberSet c' \<longrightarrow> 2 \<le> maxNumber_value c'))"
  using assms
proof (induction ls arbitrary: c)
  case Nil
  then show ?case by simp
next
  case (Cons l ls)
  consider (t) "starts_with ''threads='' l" | (m) "\<not> starts_with ''threads='' l" "starts_with ''maxNumber='' l"
    | (o) "\<not> starts_with ''threads='' l" "\<not> starts_with ''maxNumber='' l" by blast
  then have "\<exists>c1. readConfig_loop ls c1 = Inr c' \<and>
      (threadsSet c1 \<longleftrightarrow> threadsSet c \<or> starts_with ''threads='' l) \<and>
      (maxNumberSet c1 \<longleftrightarrow> maxNumberSet c \<or> starts_with ''maxNumber='' l) \<and>
      (starts_with ''threads='' l \<longrightarrow> (\<exists>v. stol (drop 8 l) = Inr v \<and> 0 < v)) \<and>
      (starts_with ''maxNumber='' l \<longrightarrow> (\<exists>v. stol (drop 10 l) = Inr v \<and> 1 < v)) \<and>
      ((threadsSet c \<longrightarrow> 1 \<le> threads_value c) \<longrightarrow> (threadsSet c1 \<longrightarrow> 1 \<le> threads_value c1)) \<and>
      ((maxNumberSet c \<longrightarrow> 2 \<le> maxNumber_value c) \<longrightarrow> (maxNumberSet c1 \<longrightarrow> 2 \<le> maxNumber_value c1))"
  proof cases
    case t
    then have nm: "\<not> starts_with ''maxNumber='' l" by (rule starts_with_exclusive)
    from Cons.prems t obtain v where v: "stol (drop 8 l) = Inr v" "0 < v"
      and r: "readConfig_loop ls (c\<lparr>threads_value := v, threadsSet := True\<rparr>) = Inr c'"
      by (auto simp: Let_def split: sum.splits if_splits)
    show ?thesis
      by (rule exI [of _ "c\<lparr>threads_value := v, threadsSet := True\<rparr>"]) (use t nm v r in auto)
  next
    case m
    from Cons.prems m obtain v where v: "stol (drop 10 l) = Inr v" "1 < v"
      and r: "readConfig_loop ls (c\<lparr>maxNumber_value := v, maxNumberSet := True\<rparr>) = Inr c'"
      by (auto simp: Let_def split: sum.splits if_splits)
    show ?thesis
      by (rule exI [of _ "c\<lparr>maxNumber_value := v, maxNumberSet := True\<rparr>"]) (use m v r in auto)
  next
    case o
    then have "readConfig_loop ls c = Inr c'" using Cons.prems by simp
    then show ?thesis using o by auto
  qed
  then obtain c1 where r: "readConfig_loop ls c1 = Inr c'"
    and c1: "threadsSet c1 \<longleftrightarrow> threadsSet c \<or> starts_with ''threads='' l"
      "maxNumberSet c1 \<longleftrightarrow> maxNumberSet c \<or> starts_with ''maxNumber='' l"
      "starts_with ''threads='' l \<longrightarrow> (\<exists>v. stol (drop 8 l) = Inr v \<and> 0 < v)"
      "starts_with ''maxNumber='' l \<longrightarrow> (\<exists>v. stol (drop 10 l) = Inr v \<and> 1 < v)"
      "(threadsSet c \<longrightarrow> 1 \<le> threads_value c) \<longrightarrow> (threadsSet c1 \<longrightarrow> 1 \<le> threads_value c1)"
      "(maxNumberSet c \<longrightarrow> 2 \<le> maxNumber_value c) \<longrightarrow> (maxNumberSet c1 \<longrightarrow> 2 \<le> maxNumber_value c1)"
    by blast
  from Cons.IH [OF r] c1 show ?case by auto
qed

lemma readConfig_ok:
  assumes "readConfig file = Inr (W, N)"
  shows "1 \<le> W \<and> 2 \<le> N"
    and "\<exists>ls. file = Some ls \<and>
           (\<exists>l\<in>set ls. starts_with ''threads='' l) \<and> (\<exists>l\<in>set ls. starts_with ''maxNumber='' l) \<and>
           (\<forall>l\<in>set ls. starts_with ''threads='' l \<longrightarrow> (\<exists>v. stol (drop 8 l) = Inr v \<and> 0 < v)) \<and>
           (\<forall>l\<in>set ls. starts_with ''maxNumber='' l \<longrightarrow> (\<exists>v. stol (drop 10 l) = Inr v \<and> 1 < v))"
proof -
  define c0 where "c0 = \<lparr>threads_value = 0, maxNumber_value = 0, threadsSet = False, maxNumberSet = False\<rparr>"
  from assms obtain ls c' where f: "file = Some ls" and r: "readConfig_loop ls c0 = Inr c'"
    and s: "threadsSet c'" "maxNumberSet c'" and v: "W = threads_value c'" "N = maxNumber_value c'"
    unfolding readConfig_def c0_def
    by (auto split: option.splits sum.splits if_splits)
  note ok = readConfig_loop_ok [OF r]
  show "1 \<le> W \<and> 2 \<le> N" using ok s v by (simp add: c0_def)
  show "\<exists>ls. file = Some ls \<and>
           (\<exists>l\<in>set ls. starts_with ''threads='' l) \<and> (\<exists>l\<in>set ls. starts_with ''maxNumber='' l) \<and>
           (\<forall>l\<in>set ls. starts_with ''threads='' l \<longrightarrow> (\<exists>v. stol (drop 8 l) = Inr v \<and> 0 < v)) \<and>
           (\<forall>l\<in>set ls. starts_with ''maxNumber='' l \<longrightarrow> (\<exists>v. stol (drop 10 l) = Inr v \<and> 1 < v))"
    using f ok s by (simp add: c0_def)
qed

lemma main_config_error:
  "readConfig file = Inl d \<Longrightarrow> main file inputs schedA schedsB = Some (Inr (1, [Diagnostic d]))"
  by (simp add: main_def)

lemma readConfig_rejects:
  assumes "file = None \<or> (\<exists>ls. file = Some ls \<and>
             ((\<forall>l\<in>set ls. \<not> starts_with ''threads='' l) \<or>
              (\<forall>l\<in>set ls. \<not> starts_with ''maxNumber='' l) \<or>
              (\<exists>l\<in>set ls. starts_with ''threads='' l \<and>
                 ((\<exists>e. stol (drop 8 l) = Inl e) \<or> (\<exists>v. stol (drop 8 l) = Inr v \<and> v \<le> 0))) \<or>
              (\<exists>l\<in>set ls. starts_with ''maxNumber='' l \<and>
                 ((\<exists>e. stol (drop 10 l) = Inl e) \<or> (\<exists>v. stol (drop 10 l) = Inr v \<and> v \<le> 1)))))"
  shows "\<exists>d. readConfig file = Inl d"
proof (cases "readConfig file")
  case (Inl d)
  then show ?thesis by blast
next
  case (Inr wn)
  obtain W N where wn: "wn = (W, N)" by (cases wn)
  from readConfig_ok(2) [OF Inr [unfolded wn]]
  obtain ls where ls: "file = Some ls"
    "\<exists>l\<in>set ls. starts_with ''threads='' l" "\<exists>l\<in>set ls. starts_with ''maxNumber='' l"
    "\<forall>l\<in>set ls. starts_with ''threads='' l \<longrightarrow> (\<exists>v. stol (drop 8 l) = Inr v \<and> 0 < v)"
    "\<forall>l\<in>set ls. starts_with ''maxNumber='' l \<longrightarrow> (\<exists>v. stol (drop 10 l) = Inr v \<and> 1 < v)"
    by blast
  from assms ls(1) consider
      (a) "\<forall>l\<in>set ls. \<not> starts_with ''threads='' l"
    | (b) "\<forall>l\<in>set ls. \<not> starts_with ''maxNumber='' l"
    | (c) l where "l \<in> set ls" "starts_with ''threads='' l"
        "(\<exists>e. stol (drop 8 l) = Inl e) \<or> (\<exists>v. stol (drop 8 l) = Inr v \<and> v \<le> 0)"
    | (d) l where "l \<in> set ls" "starts_with ''maxNumber='' l"
        "(\<exists>e. stol (drop 10 l) = Inl e) \<or> (\<exists>v. stol (drop 10 l) = Inr v \<and> v \<le> 1)"
    by auto
  then have False
  proof cases
    case a
    with ls(2) show False by blast
  next
    case b
    with ls(3) show False by blast
  next
    case c
    from ls(4) c(1,2) obtain v where "stol (drop 8 l) = Inr v" "0 < v" by blast
    with c(3) show False by auto
  next
    case d
    from ls(5) d(1,2) obtain v where "stol (drop 10 l) = Inr v" "1 < v" by blast
    with d(3) show False by auto
  qed
  then show ?thesis ..
qed

text \<open>
  Claim C8, as the code has it. When the configuration file cannot be opened, or has no
  line that starts with \<open>threads=\<close>, or none that starts with \<open>maxNumber=\<close>, or on some
  such line \<open>std::stol\<close> fails on the value (no decimal integer at its start, after
  optional white space and sign, or one outside \<open>long\<close>), or gives \<open>threads \<le> 0\<close> or
  \<open>maxNumber \<le> 1\<close>, the process writes a diagnostic and exits with status 1; nothing
  else is written, whatever the entries at the prompt and the schedules, so no worker ran.
  Characters after the leading integer of a value are ignored.
\<close>

theorem config_errors_fatal:
  assumes "file = None \<or> (\<exists>ls. file = Some ls \<and>
             ((\<forall>l\<in>set ls. \<not> starts_with ''threads='' l) \<or>
              (\<forall>l\<in>set ls. \<not> starts_with ''maxNumber='' l) \<or>
              (\<exists>l\<in>set ls. starts_with ''threads='' l \<and>
                 ((\<exists>e. stol (drop 8 l) = Inl e) \<or> (\<exists>v. stol (drop 8 l) = Inr v \<and> v \<le> 0))) \<or>
              (\<exists>l\<in>set ls. starts_with ''maxNumber='' l \<and>
                 ((\<exists>e. stol (drop 10 l) = Inl e) \<or> (\<exists>v. stol (drop 10 l) = Inr v \<and> v \<le> 1)))))"
  shows "\<exists>d. readConfig file = Inl d \<and>
           (\<forall>inputs schedA schedsB. main file inputs schedA schedsB = Some (Inr (1, [Diagnostic d])))"
proof -
  obtain d where "readConfig file = Inl d" using readConfig_rejects [OF assms] by blast
  then show ?thesis using main_config_error by blast
qed

theorem config_errors_fatal_witness:
  "starts_with ''threads='' ''threads=abc'' \<and> stol (drop 8 ''threads=abc'') = Inl InvalidArgument \<and>
   readConfig (Some [''threads=abc'', ''maxNumber=30'']) = Inl ''Invalid thread count in config: abc'' \<and>
   main (Some [''threads=abc'', ''maxNumber=30'']) [1] [0] no_schedules =
     Some (Inr (1, [Diagnostic ''Invalid thread count in config: abc'']))"
proof -
  have a: "starts_with ''threads='' ''threads=abc''" by (simp add: starts_with_def)
  have b: "stol (drop 8 ''threads=abc'') = Inl InvalidArgument"
    by (simp add: stol_def isspace_def isdigit_def)
  have c: "readConfig (Some [''threads=abc'', ''maxNumber=30'']) = Inl ''Invalid thread count in config: abc''"
    by (simp add: readConfig_def starts_with_def stol_def isspace_def isdigit_def)
  have "Some [''threads=abc'', ''maxNumber=30''] = None \<or>
        (\<exists>ls. Some [''threads=abc'', ''maxNumber=30''] = Some ls \<and>
             ((\<forall>l\<in>set ls. \<not> starts_with ''threads='' l) \<or>
              (\<forall>l\<in>set ls. \<not> starts_with ''maxNumber='' l) \<or>
              (\<exists>l\<in>set ls. starts_with ''threads='' l \<and>
                 ((\<exists>e. stol (drop 8 l) = Inl e) \<or> (\<exists>v. stol (drop 8 l) = Inr v \<and> v \<le> 0))) \<or>
              (\<exists>l\<in>set ls. starts_with ''maxNumber='' l \<and>
                 ((\<exists>e. stol (drop 10 l) = Inl e) \<or> (\<exists>v. stol (drop 10 l) = Inr v \<and> v \<le> 1)))))"
    using a b by auto
  from config_errors_fatal [OF this] c
  have "main (Some [''threads=abc'', ''maxNumber=30'']) [1] [0] no_schedules =
     Some (Inr (1, [Diagnostic ''Invalid thread count in config: abc'']))"
    by auto
  with a b c show ?thesis by blast
qed

text \<open>Claim C8 as stated fails: the value \<open>4x\<close> is not a number, yet the configuration
  is accepted with 4 threads and the run is made.\<close>

theorem malformed_value_accepted:
  "\<not> numeric_value ''4x'' \<and>
   readConfig (Some [''threads=4x'', ''maxNumber=3'']) = Inr (4, 3) \<and>
   main (Some [''threads=4x'', ''maxNumber=3'']) [2] [3, 3, 3] no_schedules =
     Some (Inr (0, [PrimesFound [2, 3]]))"
proof -
  have a: "\<not> numeric_value ''4x''" by (simp add: numeric_value_def isdigit_def)
  have b: "readConfig (Some [''threads=4x'', ''maxNumber=3'']) = Inr (4, 3)"
    by (simp add: readConfig_def starts_with_def stol_def isspace_def isdigit_def
        digit_value_def decimal_def is_long_simps)
  have c: "main_run 4 3 2 [3, 3, 3] no_schedules = Some (Inr (0, [PrimesFound [2, 3]]))"
    by code_simp
  have "main (Some [''threads=4x'', ''maxNumber=3'']) [2] [3, 3, 3] no_schedules =
     Some (Inr (0, [PrimesFound [2, 3]]))"
    by (simp add: main_def b c)
  with a b show ?thesis by blast
qed

text \<open>
  Claim C5, as the code has it. \<open>isPrimeByDivisorThreads\<close> does not check its worker
  count. A worker count \<open>W \<le> 0\<close> is rejected where the configuration is read: \<open>readConfig\<close>
  only returns a worker count of at least 1, and a \<open>threads\<close> value of 0 or less ends the
  process with a diagnostic and status 1 before anything runs. Called with \<open>W \<ge> 1\<close>, the
  function never fails: it does not divide by zero.
\<close>

theorem worker_count_checked_at_config:
  "(\<forall>file W N. readConfig file = Inr (W, N) \<longrightarrow> 1 \<le> W) \<and>
   (\<forall>ls l v. l \<in> set ls \<and> starts_with ''threads='' l \<and> stol (drop 8 l) = Inr v \<and> v \<le> 0 \<longrightarrow>
      (\<exists>d. readConfig (Some ls) = Inl d \<and>
           (\<forall>inputs schedA schedsB.
               main (Some ls) inputs schedA schedsB = Some (Inr (1, [Diagnostic d]))))) \<and>
   (\<forall>n W sched f. n \<le> LONG_MAX \<and> 1 \<le> W \<longrightarrow> isPrimeByDivisorThreads n W sched \<noteq> Some (Inl f))"
proof -
  have 1: "\<forall>file W N. readConfig file = Inr (W, N) \<longrightarrow> 1 \<le> W"
    using readConfig_ok(1) by blast
  have 2: "\<exists>d. readConfig (Some ls) = Inl d \<and>
           (\<forall>inputs schedA schedsB.
               main (Some ls) inputs schedA schedsB = Some (Inr (1, [Diagnostic d])))"
    if h: "l \<in> set ls \<and> starts_with ''threads='' l \<and> stol (drop 8 l) = Inr v \<and> v \<le> 0" for ls l v
  proof -
    have "\<exists>d. readConfig (Some ls) = Inl d"
      by (rule readConfig_rejects) (use h in blast)
    then show ?thesis using main_config_error by blast
  qed
  have 3: "isPrimeByDivisorThreads n W sched \<noteq> Some (Inl f)"
    if "n \<le> LONG_MAX \<and> 1 \<le> W" for n W sched f
    using isPrimeByDivisorThreads_verdict(1) [of n W sched] that by auto
  from 1 2 3 show ?thesis by blast
qed

theorem worker_count_checked_at_config_witness:
  "readConfig (Some [''threads=4'', ''maxNumber=30'']) = Inr (4, 30) \<and> (1::int) \<le> 4 \<and>
   starts_with ''threads='' ''threads=0'' \<and> stol (drop 8 ''threads=0'') = Inr 0 \<and>
   main (Some [''threads=0'', ''maxNumber=30'']) [3] [] no_schedules =
     Some (Inr (1, [Diagnostic ''Invalid thread count in config: 0''])) \<and>
   isPrimeByDivisorThreads 9 1 [0, 0] = Some (Inr False)"
proof -
  have a: "readConfig (Some [''threads=4'', ''maxNumber=30'']) = Inr (4, 30)"
    by (simp add: readConfig_def starts_with_def stol_def isspace_def isdigit_def
        digit_value_def decimal_def is_long_simps)
  have b: "starts_with ''threads='' ''threads=0''" by (simp add: starts_with_def)
  have c: "stol (drop 8 ''threads=0'') = Inr 0"
    by (simp add: stol_def isspace_def isdigit_def digit_value_def decimal_def is_long_simps)
  have d: "readConfig (Some [''threads=0'', ''maxNumber=30'']) = Inl ''Invalid thread count in config: 0''"
    by (simp add: readConfig_def starts_with_def stol_def isspace_def isdigit_def
        digit_value_def decimal_def is_long_simps)
  have e: "isPrimeByDivisorThreads 9 1 [0, 0] = Some (Inr False)" by code_simp
  have w: "(1::int) \<le> 4" using worker_count_checked_at_config a by blast
  have "''threads=0'' \<in> set [''threads=0'', ''maxNumber=30''] \<and> starts_with ''threads='' ''threads=0'' \<and>
        stol (drop 8 ''threads=0'') = Inr 0 \<and> (0::int) \<le> 0"
    using b c by simp
  then have "\<exists>d. readConfig (Some [''threads=0'', ''maxNumber=30'']) = Inl d \<and>
           (\<forall>inputs schedA schedsB.
               main (Some [''threads=0'', ''maxNumber=30'']) inputs schedA schedsB = Some (Inr (1, [Diagnostic d])))"
    using worker_count_checked_at_config by blast
  then have "main (Some [''threads=0'', ''maxNumber=30'']) [3] [] no_schedules =
     Some (Inr (1, [Diagnostic ''Invalid thread count in config: 0'']))"
    using d by auto
  with a b c e w show ?thesis by blast
qed

text \<open>Claim C5 as stated fails: called with no worker, the partitioner divides by
  zero.\<close>

theorem zero_workers_division_by_zero:
  "isPrimeByDivisorThreads 9 0 [] = Some (Inl DivisionByZero)"
  by code_simp

end
